theory Spec2Isabelle
  imports Main "HOL-Library.Sublist"
begin

section \<open>Unit propagation of CaDiCaL (\<^verbatim>\<open>src/propagate.cpp\<close>)\<close>

text \<open>
  The theory embeds \<^verbatim>\<open>Internal::inlined_assign\<close> and \<^verbatim>\<open>Internal::propagate\<close>.
  The solver object becomes a record that every function takes and returns; a failed
  \<^verbatim>\<open>assert\<close> and a read outside a clause or through a missing clause are error
  values, so a result \<open>Inr\<close> is a run on which no assertion fails.

  Literals are \<^verbatim>\<open>int\<close> in the source and never leave the range of the variables,
  so they are modelled by \<open>int\<close>; positions and sizes are natural numbers.
\<close>

subsection \<open>Data\<close>

type_synonym clause_ref = nat

record clause =
  literals :: "int list"
  garbage :: bool
  have_pos :: bool
  pos :: nat

record watch =
  blit :: int
  size_w :: nat
  clause_w :: clause_ref

record var =
  level_var :: nat
  trail_var :: nat
  reason :: "clause_ref option"

record flags =
  eliminated :: bool

record stats =
  fixed :: int
  propagations :: int
  probagations :: int
  conflicts :: int

record internal =
  vals :: "int \<Rightarrow> int"
  vtab :: "int \<Rightarrow> var"
  ftab :: "int \<Rightarrow> flags"
  phases :: "int \<Rightarrow> int"
  ptab :: "int \<Rightarrow> int"
  trail :: "int list"
  propagated :: nat
  conflict :: "clause_ref option"
  level :: nat
  simplifying :: bool
  unsat :: bool
  stats :: stats
  units :: "int list"
  watches :: "int \<Rightarrow> watch list"
  clauses :: "clause_ref \<rightharpoonup> clause"

datatype error = Assertion_Failed nat | Invalid_Access

text \<open>
  \<open>Assertion_Failed n\<close> is the \<^verbatim>\<open>assert\<close> of source line \<open>n\<close>.
  \<open>Invalid_Access\<close> stands for the reads the source does not guard: a watch whose
  clause is not in the arena, a clause with fewer than two literal slots, a search that
  would run past the end of the clause, and a push onto the watch vector that is being
  scanned.
\<close>

subsection \<open>Accessors declared outside the file\<close>

text \<open>
  Modelled from the spec: \<^verbatim>\<open>vidx\<close>, \<^verbatim>\<open>sign\<close> and \<^verbatim>\<open>val\<close> are declared in
  headers that are not part of the source. The variable of a literal is its absolute
  value, its sign is its polarity, and the value store is indexed by the literal.
\<close>

definition vidx :: "int \<Rightarrow> int" where
  "vidx lit = \<bar>lit\<bar>"

definition sign :: "int \<Rightarrow> int" where
  "sign lit = (if lit > 0 then 1 else if lit < 0 then - 1 else 0)"

definition val :: "internal \<Rightarrow> int \<Rightarrow> int" where
  "val s lit = vals s lit"

text \<open>
  Modelled from the spec: \<^verbatim>\<open>learn_unit_clause\<close> is defined outside the source;
  it commits the literal as a permanent unit and increments the global fixed count.
\<close>

definition learn_unit_clause :: "int \<Rightarrow> internal \<Rightarrow> internal" where
  "learn_unit_clause lit s =
     s\<lparr>units := units s @ [lit], stats := (stats s)\<lparr>fixed := fixed (stats s) + 1\<rparr>\<rparr>"

text \<open>
  Modelled from the spec: \<^verbatim>\<open>watch_literal (lit, blit, c, size)\<close> is defined outside
  the source; it registers a watch for clause \<open>c\<close> at the end of the list of \<open>lit\<close>.
\<close>

definition watch_literal :: "int \<Rightarrow> int \<Rightarrow> clause_ref \<Rightarrow> nat \<Rightarrow> internal \<Rightarrow> internal" where
  "watch_literal lit b c n s =
     s\<lparr>watches := (watches s)(lit := watches s lit @ [\<lparr>blit = b, size_w = n, clause_w = c\<rparr>])\<rparr>"

subsection \<open>Assignment (lines 9 to 50)\<close>

text \<open>
  The accessor \<^verbatim>\<open>fixedprop\<close> is applied to the literal; its table \<open>ptab\<close> is keyed
  here by the accessor's argument. The prefetch hint of lines 48 and 49 and the
  \<^verbatim>\<open>LOG\<close> lines change no state and are left out.
\<close>

definition inlined_assign :: "int \<Rightarrow> clause_ref option \<Rightarrow> internal \<Rightarrow> error + internal" where
  "inlined_assign lit rsn s =
    (let idx = vidx lit in
     if vals s idx \<noteq> 0 then Inl (Assertion_Failed 13)
     else if eliminated (ftab s idx) \<and> rsn \<noteq> None then Inl (Assertion_Failed 14)
     else
       let s1 = s\<lparr>vtab := (vtab s)(idx := (vtab s idx)
                   \<lparr>level_var := level s, trail_var := length (trail s), reason := rsn\<rparr>)\<rparr>;
           s2 = (if level s1 = 0 then learn_unit_clause lit s1 else s1);
           tmp = sign lit;
           s3 = s2\<lparr>vals := (vals s2)(idx := tmp)\<rparr>;
           s4 = s3\<lparr>vals := (vals s3)(- idx := - tmp)\<rparr>
       in
         if \<not> val s4 lit > 0 then Inl (Assertion_Failed 26)
         else if \<not> val s4 (- lit) < 0 then Inl (Assertion_Failed 27)
         else
           let s5 = (if \<not> simplifying s4 then s4\<lparr>phases := (phases s4)(idx := tmp)\<rparr> else s4);
               s6 = s5\<lparr>ptab := (ptab s5)(lit := fixed (stats s5))\<rparr>
           in Inr (s6\<lparr>trail := trail s6 @ [lit]\<rparr>))"

definition assign_unit :: "int \<Rightarrow> internal \<Rightarrow> error + internal" where
  "assign_unit lit s =
     (if level s \<noteq> 0 then Inl (Assertion_Failed 61) else inlined_assign lit None s)"

definition assign_decision :: "int \<Rightarrow> internal \<Rightarrow> error + internal" where
  "assign_decision lit s =
     (if \<not> level s > 0 then Inl (Assertion_Failed 66)
      else if propagated s \<noteq> length (trail s) then Inl (Assertion_Failed 67)
      else inlined_assign lit None s)"

text \<open>
  A clause pointer is a reference into the arena, so the \<^verbatim>\<open>assert (c)\<close> of line 72
  holds of every reference.
\<close>

definition assign_driving :: "int \<Rightarrow> clause_ref \<Rightarrow> internal \<Rightarrow> error + internal" where
  "assign_driving lit c s = inlined_assign lit (Some c) s"

subsection \<open>Search for a replacement watch (lines 154 to 202)\<close>

text \<open>
  \<open>scan vs ls k e v\<close> is the loop \<^verbatim>\<open>while (k != end && (v = val (*k)) < 0) k++\<close>.
  It returns the final \<open>k\<close> and \<open>v\<close>. The callers start it at or before \<open>e\<close> only.
\<close>

function scan :: "(int \<Rightarrow> int) \<Rightarrow> int list \<Rightarrow> nat \<Rightarrow> nat \<Rightarrow> int \<Rightarrow> nat \<times> int" where
  "scan vs ls k e v =
     (if k < e then
        (let v' = vs (ls ! k) in if v' < 0 then scan vs ls (Suc k) e v' else (k, v'))
      else (k, v))"
  by pat_completeness auto
termination
  by (relation "measure (\<lambda>(vs, ls, k, e, v). e - k)") auto

declare scan.simps [simp del]

text \<open>
  \<open>find_replacement vs n c\<close> runs on the clause \<open>c\<close> whose first two literals are
  already normalised, for a watch of size \<open>n\<close>. It returns the position \<open>k\<close>, the value
  \<open>v\<close> found there and the clause with its saved position updated.
\<close>

definition find_replacement ::
  "(int \<Rightarrow> int) \<Rightarrow> nat \<Rightarrow> clause \<Rightarrow> error + (nat \<times> int \<times> clause)" where
  "find_replacement vs n c =
    (let lits = literals c in
     if n \<noteq> length lits then Inl (Assertion_Failed 154)
     else
       let e = n in
       if have_pos c then
         (if pos c > e then Inl Invalid_Access
          else
            let (k, v) = scan vs lits (pos c) e (- 1) in
            if v < 0 then
              (let middle = pos c in
               if middle < 2 then Inl Invalid_Access
               else
                 let (k', v') = scan vs lits 2 middle v;
                     c' = c\<lparr>pos := k'\<rparr>
                 in if \<not> 2 \<le> k' \<or> \<not> k' \<le> length lits then Inl (Assertion_Failed 202)
                    else Inr (k', v', c'))
            else
              (let c' = c\<lparr>pos := k\<rparr>
               in if \<not> 2 \<le> k \<or> \<not> k \<le> length lits then Inl (Assertion_Failed 202)
                  else Inr (k, v, c')))
       else
         (if 2 > e then Inl Invalid_Access
          else
            let (k, v) = scan vs lits 2 e (- 1)
            in if \<not> 2 \<le> k \<or> \<not> k \<le> length lits then Inl (Assertion_Failed 202)
               else Inr (k, v, c)))"

subsection \<open>One watch (lines 115 to 219)\<close>

definition swap :: "nat \<Rightarrow> nat \<Rightarrow> 'a list \<Rightarrow> 'a list" where
  "swap a b xs = (xs[a := xs ! b])[b := xs ! a]"

definition set_clause :: "clause_ref \<Rightarrow> clause \<Rightarrow> internal \<Rightarrow> internal" where
  "set_clause r c s = s\<lparr>clauses := (clauses s)(r \<mapsto> c)\<rparr>"

text \<open>
  \<open>propagate_watch lit w s\<close> is one pass through the body of the inner loop for the
  watch \<open>w\<close> read from the list of \<open>lit\<close>. Besides the new state it returns what the
  write cursor \<^verbatim>\<open>j\<close> leaves behind: \<open>Some w'\<close> when the watch stays in the list
  (with the blocking literal of \<^verbatim>\<open>j[-1]\<close> possibly replaced), \<open>None\<close> after
  \<^verbatim>\<open>j--\<close>; and whether the loop is left by \<^verbatim>\<open>break\<close>.

  \<open>normalise\<close> is the swap of line 146. \<open>propagate_long\<close> is the rest of the branch
  of a long watch, from line 149, on the normalised clause \<open>c1\<close> already stored.
\<close>

definition normalise :: "int \<Rightarrow> clause \<Rightarrow> clause" where
  "normalise lit c =
     (if literals c ! 0 = lit then c\<lparr>literals := swap 0 1 (literals c)\<rparr> else c)"

definition propagate_long ::
  "int \<Rightarrow> watch \<Rightarrow> clause \<Rightarrow> internal \<Rightarrow> error + (internal \<times> watch option \<times> bool)" where
  "propagate_long lit w c1 s1 =
    (let lits = literals c1;
         u = val s1 (lits ! 0)
     in
       if u > 0 then Inr (s1, Some (w\<lparr>blit := lits ! 0\<rparr>), False)
       else
         (case find_replacement (vals s1) (size_w w) c1 of
            Inl e \<Rightarrow> Inl e
          | Inr (k, v, c2) \<Rightarrow>
              let s2 = set_clause (clause_w w) c2 s1 in
              if v > 0 then Inr (s2, Some (w\<lparr>blit := lits ! k\<rparr>), False)
              else if v = 0 then
                (let c3 = c2\<lparr>literals := swap 1 k lits\<rparr>;
                     s3 = set_clause (clause_w w) c3 s2
                 in if literals c3 ! 1 = lit then Inl Invalid_Access
                    else Inr (watch_literal (literals c3 ! 1) lit
                                (clause_w w) (size_w w) s3, None, False))
              else if u = 0 then
                (case inlined_assign (lits ! 0) (Some (clause_w w)) s2 of
                   Inl e \<Rightarrow> Inl e
                 | Inr s' \<Rightarrow> Inr (s', Some w, False))
              else Inr (s2\<lparr>conflict := Some (clause_w w)\<rparr>, Some w, True)))"

definition propagate_watch ::
  "int \<Rightarrow> watch \<Rightarrow> internal \<Rightarrow> error + (internal \<times> watch option \<times> bool)" where
  "propagate_watch lit w s =
    (let b = val s (blit w) in
     if b > 0 then Inr (s, Some w, False)
     else if size_w w = 2 then
       (if b < 0 then Inr (s\<lparr>conflict := Some (clause_w w)\<rparr>, Some w, False)
        else (case inlined_assign (blit w) (Some (clause_w w)) s of
                Inl e \<Rightarrow> Inl e
              | Inr s' \<Rightarrow> Inr (s', Some w, False)))
     else
       (case clauses s (clause_w w) of
          None \<Rightarrow> Inl Invalid_Access
        | Some c0 \<Rightarrow>
            if garbage c0 then Inr (s, Some w, False)
            else if length (literals c0) < 2 then Inl Invalid_Access
            else
              let c1 = normalise lit c0;
                  s1 = set_clause (clause_w w) c1 s
              in
                if literals c1 ! 1 \<noteq> lit then Inl (Assertion_Failed 147)
                else propagate_long lit w c1 s1))"

subsection \<open>The watch list of one literal (lines 108 to 222)\<close>

text \<open>
  The read cursor \<^verbatim>\<open>i\<close> and the write cursor \<^verbatim>\<open>j\<close> run over one vector. The
  model keeps the watches still to be read and the watches already written as two lists;
  the vector of the state is replaced when the scan is over, as the \<^verbatim>\<open>resize\<close> of
  line 222 does. After a \<^verbatim>\<open>break\<close> line 221 copies the unread watches down.
\<close>

fun propagate_watches ::
  "int \<Rightarrow> watch list \<Rightarrow> watch list \<Rightarrow> internal \<Rightarrow> error + (internal \<times> watch list)" where
  "propagate_watches lit [] kept s = Inr (s, kept)"
| "propagate_watches lit (w # rest) kept s =
     (case propagate_watch lit w s of
        Inl e \<Rightarrow> Inl e
      | Inr (s', r, brk) \<Rightarrow>
          let kept' = (case r of Some w' \<Rightarrow> kept @ [w'] | None \<Rightarrow> kept) in
          if brk then Inr (s', kept' @ rest)
          else propagate_watches lit rest kept' s')"

definition propagate_literal :: "internal \<Rightarrow> error + internal" where
  "propagate_literal s =
    (let lit = - (trail s ! propagated s);
         s1 = s\<lparr>propagated := propagated s + 1\<rparr>
     in case propagate_watches lit (watches s1 lit) [] s1 of
          Inl e \<Rightarrow> Inl e
        | Inr (s2, ws) \<Rightarrow> Inr (s2\<lparr>watches := (watches s2)(lit := ws)\<rparr>))"

subsection \<open>Propagation (lines 95 to 234)\<close>

text \<open>
  The outer loop runs as long as assignments keep arriving on the trail; nothing in the
  source bounds it, so the model may not return: \<open>None\<close> is a run that never leaves
  the loop.
\<close>

partial_function (option) propagate_loop :: "internal \<Rightarrow> (error + internal) option" where
  "propagate_loop s =
     (if conflict s = None \<and> propagated s < length (trail s) then
        (case propagate_literal s of
           Inl e \<Rightarrow> Some (Inl e)
         | Inr s' \<Rightarrow> propagate_loop s')
      else Some (Inr s))"

declare propagate_loop.simps [code]

text \<open>
  \<^verbatim>\<open>EXPENSIVE_STATS_ADD\<close> is a macro defined outside the source; it touches only
  counters that nothing in this file reads, and the model leaves them out, as it does
  the profiling calls \<^verbatim>\<open>START\<close> and \<^verbatim>\<open>STOP\<close>.
\<close>

definition update_stats :: "nat \<Rightarrow> internal \<Rightarrow> internal" where
  "update_stats before s =
    (let delta = int (propagated s) - int before;
         s1 = (if simplifying s
               then s\<lparr>stats := (stats s)\<lparr>probagations := probagations (stats s) + delta\<rparr>\<rparr>
               else s\<lparr>stats := (stats s)\<lparr>propagations := propagations (stats s) + delta\<rparr>\<rparr>)
     in if conflict s1 \<noteq> None then
          (if \<not> simplifying s1
           then s1\<lparr>stats := (stats s1)\<lparr>conflicts := conflicts (stats s1) + 1\<rparr>\<rparr>
           else s1)
        else s1)"

definition propagate :: "internal \<Rightarrow> (error + internal \<times> bool) option" where
  "propagate s =
    (if unsat s then Some (Inl (Assertion_Failed 96))
     else
       let before = propagated s in
       case propagate_loop s of
         None \<Rightarrow> None
       | Some (Inl e) \<Rightarrow> Some (Inl e)
       | Some (Inr s') \<Rightarrow>
           (let s'' = update_stats before s' in Some (Inr (s'', conflict s'' = None))))"


subsection \<open>Properties stated by the specification\<close>

text \<open>Value symmetry (I1, I2, P6), on a value store.\<close>

definition val_symmetric :: "(int \<Rightarrow> int) \<Rightarrow> bool" where
  "val_symmetric vs = (\<forall>l. vs (- l) = - vs l)"

definition polarity_consistent :: "(int \<Rightarrow> int) \<Rightarrow> bool" where
  "polarity_consistent vs =
     (\<forall>l. (vs l = 0 \<longrightarrow> vs (- l) = 0) \<and> (vs l \<noteq> 0 \<longrightarrow> (vs l > 0) \<noteq> (vs (- l) > 0)))"

text \<open>
  Modelled from the spec: the value store before any assignment reads unassigned at
  every literal; the code that allocates it is not part of the source.
\<close>

definition initial_vals :: "int \<Rightarrow> int" where
  "initial_vals = (\<lambda>_. 0)"

text \<open>
  The first position in \<open>[a, b)\<close> whose literal is true or unassigned: what a
  search for a replacement looks for, written as the specification words it.
\<close>

definition first_nonfalse :: "(int \<Rightarrow> int) \<Rightarrow> int list \<Rightarrow> nat \<Rightarrow> nat \<Rightarrow> nat option" where
  "first_nonfalse vs ls a b = List.find (\<lambda>i. 0 \<le> vs (ls ! i)) [a..<b]"

subsection \<open>Clauses under a value store\<close>

definition sat :: "(int \<Rightarrow> int) \<Rightarrow> clause \<Rightarrow> bool" where
  "sat vs c = (\<exists>x\<in>set (literals c). vs x > 0)"

definition all_false :: "(int \<Rightarrow> int) \<Rightarrow> clause \<Rightarrow> bool" where
  "all_false vs c = (\<forall>x\<in>set (literals c). vs x < 0)"

text \<open>
  A missed unit: exactly one position of the clause holds an unassigned literal and
  every other position holds a false one.
\<close>

definition is_unit :: "(int \<Rightarrow> int) \<Rightarrow> clause \<Rightarrow> bool" where
  "is_unit vs c = (\<exists>i<length (literals c). vs (literals c ! i) = 0 \<and>
      (\<forall>j<length (literals c). j \<noteq> i \<longrightarrow> vs (literals c ! j) < 0))"

subsection \<open>The invariants of the watch structure\<close>

text \<open>
  A clause watches the literals at its positions 0 and 1. A watch \<open>w\<close> on the list of
  \<open>l\<close> is well formed when its clause is in the arena and, if the watch is binary or
  the clause is not garbage (the cases in which the code relies on the watch), its size
  is the size of the clause, the clause watches \<open>l\<close>, the blocking literal is a literal
  of the clause, and for a binary watch it is the other literal. No list holds two
  watches of one clause.
\<close>

definition watching :: "clause \<Rightarrow> int \<Rightarrow> bool" where
  "watching c l = (literals c ! 0 = l \<or> literals c ! 1 = l)"

definition watch_ok :: "(clause_ref \<rightharpoonup> clause) \<Rightarrow> int \<Rightarrow> watch \<Rightarrow> bool" where
  "watch_ok cs l w = (\<exists>c. cs (clause_w w) = Some c \<and>
      (size_w w = 2 \<or> \<not> garbage c \<longrightarrow>
         size_w w = length (literals c) \<and> watching c l \<and>
         blit w \<in> set (literals c) \<and> (size_w w = 2 \<longrightarrow> blit w \<noteq> l)))"

definition watches_wf :: "(clause_ref \<rightharpoonup> clause) \<Rightarrow> (int \<Rightarrow> watch list) \<Rightarrow> bool" where
  "watches_wf cs W = (\<forall>l. distinct (map clause_w (W l)) \<and> (\<forall>w\<in>set (W l). watch_ok cs l w))"

text \<open>A clause that is not garbage has at least two literals, all different.\<close>

definition db_wf :: "(clause_ref \<rightharpoonup> clause) \<Rightarrow> bool" where
  "db_wf cs = (\<forall>i c. cs i = Some c \<longrightarrow> \<not> garbage c \<longrightarrow>
      distinct (literals c) \<and> 2 \<le> length (literals c))"

text \<open>Every clause that is not garbage has a watch on the lists of both literals it watches.\<close>

definition watched :: "(clause_ref \<rightharpoonup> clause) \<Rightarrow> (int \<Rightarrow> watch list) \<Rightarrow> bool" where
  "watched cs W = (\<forall>i c. cs i = Some c \<longrightarrow> \<not> garbage c \<longrightarrow>
      i \<in> clause_w ` set (W (literals c ! 0)) \<and> i \<in> clause_w ` set (W (literals c ! 1)))"

text \<open>
  The watch invariant (I3) in the form the loop keeps: a watched literal of a clause
  that is not garbage is false only if the clause is satisfied, or the assignment that
  made it false is still waiting on the trail (in \<open>P\<close>, the literals from the cursor
  on), or, during the scan of the list of \<open>lit\<close>, it is \<open>lit\<close> and the watch of the
  clause has not been read yet (its clause is in \<open>R\<close>).
\<close>

definition pending_ok ::
  "(int \<Rightarrow> int) \<Rightarrow> int set \<Rightarrow> (clause_ref \<rightharpoonup> clause) \<Rightarrow> int \<Rightarrow> clause_ref set \<Rightarrow> bool" where
  "pending_ok vs P cs lit R = (\<forall>i c. cs i = Some c \<longrightarrow> \<not> garbage c \<longrightarrow>
      (\<forall>q<2. vs (literals c ! q) < 0 \<longrightarrow>
         sat vs c \<or> - (literals c ! q) \<in> P \<or> (literals c ! q = lit \<and> i \<in> R)))"

text \<open>
  Values are symmetric (I1, I2), the literals on the trail are true, and the cursor is
  within the trail (I4).
\<close>

definition assignment_ok :: "internal \<Rightarrow> bool" where
  "assignment_ok s = (val_symmetric (vals s) \<and> (\<forall>l\<in>set (trail s). vals s l > 0) \<and>
      propagated s \<le> length (trail s))"

definition structure_ok :: "internal \<Rightarrow> bool" where
  "structure_ok s = (assignment_ok s \<and> db_wf (clauses s) \<and> watches_wf (clauses s) (watches s))"

text \<open>The conflict marker, when set, refers to a clause with all literals false.\<close>

definition conflict_false :: "internal \<Rightarrow> bool" where
  "conflict_false s = (\<forall>i. conflict s = Some i \<longrightarrow>
      (\<exists>c. clauses s i = Some c \<and> all_false (vals s) c))"

subsection \<open>Auxiliary notions for the proofs\<close>

text \<open>
  Two versions of a clause that differ by the swap of the two watched literals and by
  the saved position: same literals, same watched pair, same flags.
\<close>

definition same_watching :: "clause \<Rightarrow> clause \<Rightarrow> bool" where
  "same_watching c c' = (length (literals c') = length (literals c) \<and>
      set (literals c') = set (literals c) \<and>
      (\<forall>l. watching c' l = watching c l) \<and>
      garbage c' = garbage c \<and> distinct (literals c') = distinct (literals c))"

text \<open>
  During the scan of the list of \<open>lit\<close> the vector of the state is stale; \<open>ws\<close> is
  the list as the two cursors see it, the watches written followed by the watches unread.
\<close>

definition scan_ok :: "int \<Rightarrow> watch list \<Rightarrow> internal \<Rightarrow> bool" where
  "scan_ok lit ws s = (assignment_ok s \<and> vals s lit < 0 \<and> db_wf (clauses s) \<and>
      watches_wf (clauses s) ((watches s)(lit := ws)))"

definition kept_of :: "watch option \<Rightarrow> watch list" where
  "kept_of r = (case r of Some w \<Rightarrow> [w] | None \<Rightarrow> [])"

subsection \<open>Invariants of the loops\<close>

text \<open>
  \<open>watch_invariant\<close> is what a call of \<open>propagate\<close> expects on entry: a
  well-formed structure in which every clause that is not garbage is watched, and I3 in
  the form \<open>pending_ok\<close> for the literals of the trail from the cursor on.
  \<open>loop_invariant\<close> is what holds between two rounds of the outer loop, and
  \<open>scan_invariant\<close> what holds between two watches of one list.
\<close>

definition watch_invariant :: "internal \<Rightarrow> bool" where
  "watch_invariant s = (structure_ok s \<and> watched (clauses s) (watches s) \<and>
      pending_ok (vals s) (set (drop (propagated s) (trail s))) (clauses s) 0 {})"

definition loop_invariant :: "internal \<Rightarrow> bool" where
  "loop_invariant s = (structure_ok s \<and> conflict_false s \<and> watched (clauses s) (watches s) \<and>
      (conflict s = None \<longrightarrow>
         pending_ok (vals s) (set (drop (propagated s) (trail s))) (clauses s) 0 {}) \<and>
      (\<forall>i c. conflict s = Some i \<longrightarrow> clauses s i = Some c \<longrightarrow> \<not> garbage c \<longrightarrow>
            propagated s < length (trail s)))"

text \<open>
  What the scan of the list of \<open>lit\<close> keeps about pending assignments: the invariant
  \<open>pending_ok\<close> with the unread watches \<open>rest\<close> excused, unless a conflict was found
  with the cursor short of the end of the trail; and a conflict on a clause that is not
  garbage always leaves the cursor short of the end of the trail.
\<close>

definition scan_pending :: "int \<Rightarrow> watch list \<Rightarrow> internal \<Rightarrow> bool" where
  "scan_pending lit rest s =
     ((pending_ok (vals s) (set (drop (propagated s) (trail s))) (clauses s) lit
          (clause_w ` set rest)
       \<or> (conflict s \<noteq> None \<and> propagated s < length (trail s)))
      \<and> (\<forall>i c. conflict s = Some i \<longrightarrow> clauses s i = Some c \<longrightarrow> \<not> garbage c \<longrightarrow>
            propagated s < length (trail s)))"

definition scan_invariant :: "int \<Rightarrow> watch list \<Rightarrow> watch list \<Rightarrow> internal \<Rightarrow> bool" where
  "scan_invariant lit kept rest s = (scan_ok lit (kept @ rest) s \<and> conflict_false s \<and>
      watched (clauses s) ((watches s)(lit := kept @ rest)) \<and> scan_pending lit rest s)"

text \<open>
  Saved positions lie between the two watched slots and the end of the clause (the
  assertions of lines 179 and 202).
\<close>

definition pos_in_range :: "(clause_ref \<rightharpoonup> clause) \<Rightarrow> bool" where
  "pos_in_range cs = (\<forall>i c. cs i = Some c \<longrightarrow> have_pos c \<longrightarrow>
      2 \<le> pos c \<and> pos c \<le> length (literals c))"

text \<open>What one watch and what a whole call keep, whatever the state of the watch structure.\<close>

definition frame :: "internal \<Rightarrow> internal \<Rightarrow> bool" where
  "frame s s' = (prefix (trail s) (trail s') \<and> propagated s' = propagated s \<and>
      (val_symmetric (vals s) \<longrightarrow> val_symmetric (vals s')) \<and>
      (pos_in_range (clauses s) \<longrightarrow> pos_in_range (clauses s')))"

definition call_frame :: "internal \<Rightarrow> internal \<Rightarrow> bool" where
  "call_frame s t = (prefix (trail s) (trail t) \<and> propagated s \<le> propagated t \<and>
      propagated t \<le> length (trail t) \<and>
      (val_symmetric (vals s) \<longrightarrow> val_symmetric (vals t)) \<and>
      (pos_in_range (clauses s) \<longrightarrow> pos_in_range (clauses t)))"

subsection \<open>The invariant I3 in the words of the specification\<close>

text \<open>
  I3 as the specification words it: with no conflict set, every watch of a clause that is
  not garbage has the two watched literals of the clause unassigned, or its blocking
  literal true. It is the special case of \<open>pending_ok\<close> in which no false watched
  literal is left to an assignment that still waits on the trail.
\<close>

definition spec_I3 :: "internal \<Rightarrow> bool" where
  "spec_I3 s = (\<forall>l. \<forall>w\<in>set (watches s l). \<forall>c. clauses s (clause_w w) = Some c \<longrightarrow>
      \<not> garbage c \<longrightarrow>
      (vals s (literals c ! 0) = 0 \<and> vals s (literals c ! 1) = 0) \<or> vals s (blit w) > 0)"

subsection \<open>Termination of the outer loop\<close>

text \<open>
  The loop of lines 104 to 223 has no bound of its own. It ends because every assignment
  takes an unassigned literal of some clause, of which there are finitely many:
  \<open>potential\<close> counts twice the unassigned clause literals plus the length of the
  trail, so that an assignment (one entry more on the trail, a literal and its negation
  less among the unassigned) does not raise it. \<open>lits_ok\<close> is what the assertions of
  lines 13 and 14 need of the clauses: finitely many of them, no literal \<open>0\<close>, no
  eliminated variable. \<open>run_ok\<close> collects what a call needs in order to return.
\<close>

definition clause_lits :: "(clause_ref \<rightharpoonup> clause) \<Rightarrow> int set" where
  "clause_lits cs = (\<Union>c\<in>ran cs. set (literals c))"

definition lits_ok :: "internal \<Rightarrow> bool" where
  "lits_ok s = (finite (dom (clauses s)) \<and>
      (\<forall>x\<in>clause_lits (clauses s). x \<noteq> 0 \<and> \<not> eliminated (ftab s (vidx x))))"

definition unassigned :: "internal \<Rightarrow> int set" where
  "unassigned s = {x \<in> clause_lits (clauses s). vals s x = 0}"

definition potential :: "internal \<Rightarrow> nat" where
  "potential s = 2 * card (unassigned s) + length (trail s)"

definition run_ok :: "internal \<Rightarrow> bool" where
  "run_ok s = (structure_ok s \<and> pos_in_range (clauses s) \<and> lits_ok s)"

subsection \<open>Binary clauses counted as live\<close>

text \<open>
  The branch of lines 120 to 127 never reads the garbage flag, so a binary clause takes
  part in propagation whether it is flagged or not. \<open>unflag\<close> clears the flag of every
  clause of two literals, and \<open>live_invariant\<close> is the watch invariant with binary
  clauses counted as live: the invariant of the unflagged state. On a state without a
  flagged binary clause it is \<open>watch_invariant\<close> itself. \<open>conflict_live\<close> says that
  no binary clause and no clause recorded as the conflict is flagged.
\<close>

definition unflag_clause :: "clause \<Rightarrow> clause" where
  "unflag_clause c = (if length (literals c) = 2 then c\<lparr>garbage := False\<rparr> else c)"

definition unflag :: "internal \<Rightarrow> internal" where
  "unflag s = s\<lparr>clauses := (\<lambda>i. map_option unflag_clause (clauses s i))\<rparr>"

definition live_invariant :: "internal \<Rightarrow> bool" where
  "live_invariant s = watch_invariant (unflag s)"

definition conflict_live :: "internal \<Rightarrow> bool" where
  "conflict_live s = (\<forall>i c. clauses s i = Some c \<longrightarrow>
      length (literals c) = 2 \<or> conflict s = Some i \<longrightarrow> \<not> garbage c)"

subsection \<open>Concrete states\<close>

text \<open>
  The states below are the inputs at which the theorems are instantiated. \<open>blank\<close>
  is a solver with no clause and no assignment, in search mode at level 0.
\<close>

definition blank :: internal where
  "blank = \<lparr>vals = (\<lambda>_. 0), vtab = (\<lambda>_. \<lparr>level_var = 0, trail_var = 0, reason = None\<rparr>),
     ftab = (\<lambda>_. \<lparr>eliminated = False\<rparr>), phases = (\<lambda>_. 0), ptab = (\<lambda>_. 0), trail = [],
     propagated = 0, conflict = None, level = 0, simplifying = False, unsat = False,
     stats = \<lparr>fixed = 0, propagations = 0, probagations = 0, conflicts = 0\<rparr>, units = [],
     watches = (\<lambda>_. []), clauses = Map.empty\<rparr>"

definition short_clause :: "int list \<Rightarrow> clause" where
  "short_clause ls = \<lparr>literals = ls, garbage = False, have_pos = False, pos = 0\<rparr>"

definition long_clause :: "int list \<Rightarrow> nat \<Rightarrow> clause" where
  "long_clause ls p = \<lparr>literals = ls, garbage = False, have_pos = True, pos = p\<rparr>"

definition watch_of :: "int \<Rightarrow> nat \<Rightarrow> clause_ref \<Rightarrow> watch" where
  "watch_of b n c = \<lparr>blit = b, size_w = n, clause_w = c\<rparr>"

text \<open>
  The units \<open>- 1\<close> and \<open>- 2\<close> at level 0 with the clauses \<open>(1, 2)\<close> and \<open>(1, 3)\<close>:
  scenario C of the specification with one more binary clause.
\<close>

definition two_binaries :: internal where
  "two_binaries = blank\<lparr>
     clauses := [0 \<mapsto> short_clause [1, 2], 1 \<mapsto> short_clause [1, 3]],
     watches := (\<lambda>_. [])(1 := [watch_of 2 2 0, watch_of 3 2 1], 2 := [watch_of 1 2 0],
                          3 := [watch_of 1 2 1]),
     vals := (\<lambda>_. 0)(- 1 := 1, 1 := - 1, - 2 := 1, 2 := - 1),
     trail := [- 1, - 2]\<rparr>"

text \<open>The clause \<open>(1, 2, 3)\<close> with all three literals false, \<open>- 3\<close> already propagated.\<close>

definition three_false :: internal where
  "three_false = blank\<lparr>
     clauses := [0 \<mapsto> short_clause [1, 2, 3]],
     watches := (\<lambda>_. [])(1 := [watch_of 2 3 0], 2 := [watch_of 1 3 0]),
     vals := (\<lambda>_. 0)(- 1 := 1, 1 := - 1, - 2 := 1, 2 := - 1, - 3 := 1, 3 := - 1),
     trail := [- 3, - 2, - 1], propagated := 1, level := 3\<rparr>"

text \<open>
  A clause of five literals with its saved position at 2, the literal at 2 false and
  the literal at 3 unassigned.
\<close>

definition gap_clause :: clause where
  "gap_clause = long_clause [2, 1, 3, 4, 5] 2"

definition gap_vals :: "int \<Rightarrow> int" where
  "gap_vals = (\<lambda>_. 0)(3 := - 1, - 3 := 1, 1 := - 1, - 1 := 1)"

text \<open>
  A binary clause \<open>(1, 2)\<close> flagged garbage and still watched. In \<open>garbage_false\<close>
  both literals are false and \<open>- 2\<close> is already propagated; in \<open>garbage_open\<close> only
  \<open>1\<close> is false.
\<close>

definition garbage_false :: internal where
  "garbage_false = blank\<lparr>
     clauses := [0 \<mapsto> (short_clause [1, 2])\<lparr>garbage := True\<rparr>],
     watches := (\<lambda>_. [])(1 := [watch_of 2 2 0], 2 := [watch_of 1 2 0]),
     vals := (\<lambda>_. 0)(- 1 := 1, 1 := - 1, - 2 := 1, 2 := - 1),
     trail := [- 2, - 1], propagated := 1, level := 2\<rparr>"

definition garbage_open :: internal where
  "garbage_open = blank\<lparr>
     clauses := [0 \<mapsto> (short_clause [1, 2])\<lparr>garbage := True\<rparr>],
     watches := (\<lambda>_. [])(1 := [watch_of 2 2 0], 2 := [watch_of 1 2 0]),
     vals := (\<lambda>_. 0)(- 1 := 1, 1 := - 1),
     trail := [- 1], level := 1\<rparr>"

text \<open>A long clause \<open>(4, 5, 6)\<close> flagged garbage, watched on \<open>4\<close>, with \<open>4\<close> false.\<close>

definition garbage_long :: internal where
  "garbage_long = blank\<lparr>
     clauses := [0 \<mapsto> (short_clause [4, 5, 6])\<lparr>garbage := True\<rparr>],
     watches := (\<lambda>_. [])(4 := [watch_of 5 3 0], 5 := [watch_of 4 3 0]),
     vals := (\<lambda>_. 0)(- 4 := 1, 4 := - 1),
     trail := [- 4], level := 1\<rparr>"

text \<open>
  Scenario A of the specification: the clauses \<open>(1, 2)\<close> and \<open>(- 1, 3)\<close> after the
  decision \<open>- 2\<close>. In \<open>long_unit\<close> the clause \<open>(1, 2, 3)\<close> has lost \<open>3\<close> (already
  propagated) and \<open>2\<close> (still waiting on the trail).
\<close>

definition scenario_a :: internal where
  "scenario_a = blank\<lparr>
     clauses := [0 \<mapsto> short_clause [1, 2], 1 \<mapsto> short_clause [- 1, 3]],
     watches := (\<lambda>_. [])(1 := [watch_of 2 2 0], 2 := [watch_of 1 2 0],
                          - 1 := [watch_of 3 2 1], 3 := [watch_of (- 1) 2 1]),
     vals := (\<lambda>_. 0)(- 2 := 1, 2 := - 1),
     trail := [- 2], level := 1\<rparr>"

definition long_unit :: internal where
  "long_unit = blank\<lparr>
     clauses := [0 \<mapsto> short_clause [1, 2, 3]],
     watches := (\<lambda>_. [])(1 := [watch_of 2 3 0], 2 := [watch_of 1 3 0]),
     vals := (\<lambda>_. 0)(- 3 := 1, 3 := - 1, - 2 := 1, 2 := - 1),
     trail := [- 3, - 2], propagated := 1, level := 2\<rparr>"

text \<open>
  A clause of five literals with a saved position, watched on \<open>1\<close> and \<open>2\<close>, with
  \<open>3\<close> false and \<open>- 1\<close> waiting on the trail.
\<close>

definition cached_search :: internal where
  "cached_search = blank\<lparr>
     clauses := [0 \<mapsto> long_clause [1, 2, 3, 4, 5] 2],
     watches := (\<lambda>_. [])(1 := [watch_of 2 5 0], 2 := [watch_of 1 5 0]),
     vals := (\<lambda>_. 0)(- 3 := 1, 3 := - 1, - 1 := 1, 1 := - 1),
     trail := [- 3, - 1], propagated := 1, level := 2\<rparr>"

section \<open>Assignment\<close>

lemmas example_defs = blank_def short_clause_def long_clause_def watch_of_def

lemma vidx_neg [simp]: "vidx (- l) = vidx l"
  by (simp add: vidx_def)

lemma sign_neg [simp]: "sign (- l) = - sign l"
  by (simp add: sign_def)

lemma sign_vidx: "l \<noteq> 0 \<Longrightarrow> sign l * vidx l = l"
  by (simp add: sign_def vidx_def)

text \<open>The effect of \<open>inlined_assign\<close> in one update of the state.\<close>

lemma inlined_assign_closed:
  "inlined_assign lit rsn s =
    (if vals s (vidx lit) \<noteq> 0 then Inl (Assertion_Failed 13)
     else if eliminated (ftab s (vidx lit)) \<and> rsn \<noteq> None then Inl (Assertion_Failed 14)
     else if lit = 0 then Inl (Assertion_Failed 26)
     else Inr (s\<lparr>vtab := (vtab s)(vidx lit := (vtab s (vidx lit))
                   \<lparr>level_var := level s, trail_var := length (trail s), reason := rsn\<rparr>),
               units := (if level s = 0 then units s @ [lit] else units s),
               stats := (if level s = 0 then (stats s)\<lparr>fixed := fixed (stats s) + 1\<rparr>
                         else stats s),
               vals := (vals s)(lit := 1, - lit := - 1),
               phases := (if simplifying s then phases s else (phases s)(vidx lit := sign lit)),
               ptab := (ptab s)(lit := (if level s = 0 then fixed (stats s) + 1
                                        else fixed (stats s))),
               trail := trail s @ [lit]\<rparr>))"
  by (auto simp: inlined_assign_def Let_def val_def sign_def vidx_def learn_unit_clause_def
      fun_eq_iff)

lemma inlined_assign_Inr:
  assumes "inlined_assign lit rsn s = Inr s'"
  shows "lit \<noteq> 0" and "vals s (vidx lit) = 0"
    and "vals s' = (vals s)(lit := 1, - lit := - 1)"
    and "trail s' = trail s @ [lit]"
    and "propagated s' = propagated s" and "conflict s' = conflict s"
    and "watches s' = watches s" and "clauses s' = clauses s"
    and "level s' = level s" and "simplifying s' = simplifying s" and "unsat s' = unsat s"
    and "ftab s' = ftab s"
  using assms by (auto simp: inlined_assign_closed split: if_splits)

lemma val_symmetric_assign:
  assumes "val_symmetric vs" and "lit \<noteq> 0"
  shows "val_symmetric (vs(lit := 1, - lit := - 1))"
  unfolding val_symmetric_def
proof
  fix l
  have "vs (- l) = - vs l" using assms by (simp add: val_symmetric_def)
  then show "(vs(lit := 1, - lit := - 1)) (- l) = - (vs(lit := 1, - lit := - 1)) l"
    using assms(2) by (auto simp: fun_upd_def)
qed

lemma val_symmetric_polarity: "val_symmetric vs \<Longrightarrow> polarity_consistent vs"
  unfolding val_symmetric_def polarity_consistent_def
proof (intro allI conjI impI)
  fix l assume h: "\<forall>l. vs (- l) = - vs l"
  { assume "vs l = 0" with h show "vs (- l) = 0" by simp }
  { assume "vs l \<noteq> 0"
    moreover have "vs (- l) = - vs l" using h by simp
    ultimately show "(0 < vs l) \<noteq> (0 < vs (- l))" by auto }
qed

text \<open>
  C6. Called on an unassigned variable, with an empty reason if the variable is
  eliminated, \<open>inlined_assign\<close> passes its assertions and: records the decision level,
  the trail position and the reason of the variable; at level 0 commits the literal as a
  unit and increments the fixed count, and leaves both alone at any other level; makes
  the literal true and its negation false and changes no other slot of the value store;
  saves the phase exactly when the solver is not simplifying; stores the (new) fixed
  count in the slot of \<^verbatim>\<open>fixedprop\<close>; and appends the literal to the trail, which
  grows by one entry.
\<close>

theorem inlined_assign_effects:
  assumes "lit \<noteq> 0" and "vals s (vidx lit) = 0"
    and "eliminated (ftab s (vidx lit)) \<longrightarrow> rsn = None"
  shows "\<exists>s'. inlined_assign lit rsn s = Inr s'
    \<and> level_var (vtab s' (vidx lit)) = level s
    \<and> trail_var (vtab s' (vidx lit)) = length (trail s)
    \<and> reason (vtab s' (vidx lit)) = rsn
    \<and> (\<forall>i. i \<noteq> vidx lit \<longrightarrow> vtab s' i = vtab s i)
    \<and> (if level s = 0
        then units s' = units s @ [lit] \<and> fixed (stats s') = fixed (stats s) + 1
        else units s' = units s \<and> fixed (stats s') = fixed (stats s))
    \<and> val s' lit = 1 \<and> val s' (- lit) = - 1
    \<and> vals s' (vidx lit) = sign lit \<and> vals s' (- vidx lit) = - sign lit
    \<and> (\<forall>l. l \<noteq> lit \<and> l \<noteq> - lit \<longrightarrow> vals s' l = vals s l)
    \<and> phases s' = (if simplifying s then phases s else (phases s)(vidx lit := sign lit))
    \<and> ptab s' lit = fixed (stats s')
    \<and> trail s' = trail s @ [lit]
    \<and> length (trail s') = length (trail s) + 1"
  using assms
  by (simp add: inlined_assign_closed val_def) (auto simp: vidx_def sign_def)

theorem inlined_assign_effects_witness:
  "(- 3 :: int) \<noteq> 0 \<and> vals blank (vidx (- 3)) = 0
   \<and> \<not> eliminated (ftab blank (vidx (- 3)))
   \<and> (\<exists>s'. inlined_assign (- 3) (Some 0) blank = Inr s'
         \<and> trail s' = [- 3] \<and> val s' (- 3) = 1 \<and> val s' 3 = - 1
         \<and> reason (vtab s' 3) = Some 0 \<and> units s' = [- 3] \<and> fixed (stats s') = 1
         \<and> ptab s' (- 3) = 1 \<and> phases s' 3 = - 1)"
proof -
  have h: "(- 3 :: int) \<noteq> 0" "vals blank (vidx (- 3)) = 0"
    "eliminated (ftab blank (vidx (- 3))) \<longrightarrow> Some (0 :: nat) = None"
    by (simp_all add: blank_def vidx_def)
  have f: "level blank = 0" "trail blank = []" "units blank = []" "fixed (stats blank) = 0"
    "\<not> simplifying blank" "vidx (- 3) = 3" "sign (- 3) = - 1"
    by (simp_all add: blank_def vidx_def sign_def)
  from inlined_assign_effects [OF h] obtain s' where
    "inlined_assign (- 3) (Some 0) blank = Inr s'" "trail s' = [- 3]" "val s' (- 3) = 1"
    "val s' 3 = - 1" "reason (vtab s' 3) = Some 0" "units s' = [- 3]" "fixed (stats s') = 1"
    "ptab s' (- 3) = 1" "phases s' 3 = - 1"
    using f by auto
  moreover have "\<not> eliminated (ftab blank (vidx (- 3)))" by (simp add: blank_def)
  ultimately show ?thesis using h by blast
qed

section \<open>The replacement search\<close>

text \<open>
  The loop of \<open>scan\<close> started at \<open>k \<le> e\<close> stops at the first position from \<open>k\<close>
  whose literal is not false, or at \<open>e\<close>; the value it returns is the value at that
  position, or a negative one (the last value read, or the initial one if it read none).
\<close>

lemma scan_bounds: "k \<le> e \<Longrightarrow> k \<le> fst (scan vs ls k e v) \<and> fst (scan vs ls k e v) \<le> e"
proof (induction vs ls k e v rule: scan.induct)
  case (1 vs ls k e v)
  show ?case
  proof (cases "k < e \<and> vs (ls ! k) < 0")
    case True
    then have "scan vs ls k e v = scan vs ls (Suc k) e (vs (ls ! k))"
      by (subst scan.simps) simp
    moreover have "Suc k \<le> fst (scan vs ls (Suc k) e (vs (ls ! k))) \<and>
      fst (scan vs ls (Suc k) e (vs (ls ! k))) \<le> e"
      using True "1.IH" [of "vs (ls ! k)"] by simp
    ultimately show ?thesis by simp
  next
    case False
    then show ?thesis using "1.prems" by (subst (1 2) scan.simps) (auto simp: Let_def)
  qed
qed

lemma scan_skipped:
  "k \<le> i \<Longrightarrow> i < fst (scan vs ls k e v) \<Longrightarrow> vs (ls ! i) < 0"
proof (induction vs ls k e v rule: scan.induct)
  case (1 vs ls k e v)
  show ?case
  proof (cases "k < e \<and> vs (ls ! k) < 0")
    case True
    then have eq: "scan vs ls k e v = scan vs ls (Suc k) e (vs (ls ! k))"
      by (subst scan.simps) simp
    show ?thesis
    proof (cases "i = k")
      case True
      then show ?thesis using \<open>k < e \<and> vs (ls ! k) < 0\<close> by simp
    next
      case False
      then have "Suc k \<le> i" using "1.prems" by simp
      then show ?thesis using True "1.IH" [of "vs (ls ! k)"] "1.prems" eq by simp
    qed
  next
    case False
    then have "fst (scan vs ls k e v) = k" by (subst scan.simps) (auto simp: Let_def)
    then show ?thesis using "1.prems" by simp
  qed
qed

lemma scan_found:
  "fst (scan vs ls k e v) < e \<Longrightarrow>
     snd (scan vs ls k e v) = vs (ls ! fst (scan vs ls k e v)) \<and> 0 \<le> snd (scan vs ls k e v)"
proof (induction vs ls k e v rule: scan.induct)
  case (1 vs ls k e v)
  show ?case
  proof (cases "k < e \<and> vs (ls ! k) < 0")
    case True
    then have eq: "scan vs ls k e v = scan vs ls (Suc k) e (vs (ls ! k))"
      by (subst scan.simps) simp
    then show ?thesis using True "1.IH" [of "vs (ls ! k)"] "1.prems" by simp
  next
    case False
    then have "k < e \<Longrightarrow> scan vs ls k e v = (k, vs (ls ! k))"
      by (subst scan.simps) (auto simp: Let_def)
    moreover have "\<not> k < e \<Longrightarrow> scan vs ls k e v = (k, v)"
      by (subst scan.simps) simp
    ultimately show ?thesis using False "1.prems" by (cases "k < e") auto
  qed
qed

lemma scan_exhausted:
  "k \<le> e \<Longrightarrow> fst (scan vs ls k e v) = e \<Longrightarrow> v < 0 \<Longrightarrow> snd (scan vs ls k e v) < 0"
proof (induction vs ls k e v rule: scan.induct)
  case (1 vs ls k e v)
  show ?case
  proof (cases "k < e \<and> vs (ls ! k) < 0")
    case True
    then have eq: "scan vs ls k e v = scan vs ls (Suc k) e (vs (ls ! k))"
      by (subst scan.simps) simp
    then show ?thesis using True "1.IH" [of "vs (ls ! k)"] "1.prems" by simp
  next
    case False
    then have "k < e \<Longrightarrow> scan vs ls k e v = (k, vs (ls ! k))"
      by (subst scan.simps) (auto simp: Let_def)
    moreover have "\<not> k < e \<Longrightarrow> scan vs ls k e v = (k, v)"
      by (subst scan.simps) simp
    ultimately show ?thesis using False "1.prems" by (cases "k < e") auto
  qed
qed

lemma scan_nonneg_found:
  assumes "k \<le> e" and "0 \<le> snd (scan vs ls k e v)" and "v < 0"
  shows "fst (scan vs ls k e v) < e"
proof (rule ccontr)
  assume "\<not> fst (scan vs ls k e v) < e"
  then have "fst (scan vs ls k e v) = e" using scan_bounds [OF assms(1), of vs ls v] by simp
  then show False using scan_exhausted [OF assms(1) _ assms(3)] assms(2) by fastforce
qed

lemma scan_first_Some:
  "first_nonfalse vs ls k e = Some i \<Longrightarrow> scan vs ls k e v = (i, vs (ls ! i))"
proof (induction vs ls k e v rule: scan.induct)
  case (1 vs ls k e v)
  have ke: "k < e" using "1.prems" by (cases "k < e") (auto simp: first_nonfalse_def)
  then have upt: "[k..<e] = k # [Suc k..<e]" by (simp add: upt_conv_Cons)
  show ?case
  proof (cases "vs (ls ! k) < 0")
    case True
    then have "first_nonfalse vs ls (Suc k) e = Some i"
      using "1.prems" upt by (simp add: first_nonfalse_def)
    then have "scan vs ls (Suc k) e (vs (ls ! k)) = (i, vs (ls ! i))"
      using "1.IH" [of "vs (ls ! k)"] ke True by simp
    then show ?thesis using ke True by (subst scan.simps) simp
  next
    case False
    then have "i = k" using "1.prems" upt by (simp add: first_nonfalse_def)
    then show ?thesis using ke False by (subst scan.simps) simp
  qed
qed

lemma scan_first_None:
  "first_nonfalse vs ls k e = None \<Longrightarrow> k \<le> e \<Longrightarrow> v < 0 \<Longrightarrow>
     fst (scan vs ls k e v) = e \<and> snd (scan vs ls k e v) < 0"
proof (induction vs ls k e v rule: scan.induct)
  case (1 vs ls k e v)
  show ?case
  proof (cases "k < e")
    case True
    then have upt: "[k..<e] = k # [Suc k..<e]" by (simp add: upt_conv_Cons)
    have neg: "vs (ls ! k) < 0" and rest: "first_nonfalse vs ls (Suc k) e = None"
      using "1.prems"(1) upt by (auto simp: first_nonfalse_def split: if_splits)
    have "fst (scan vs ls (Suc k) e (vs (ls ! k))) = e \<and>
          snd (scan vs ls (Suc k) e (vs (ls ! k))) < 0"
      using "1.IH" [of "vs (ls ! k)"] True neg rest by simp
    then show ?thesis using True neg by (subst (1 2) scan.simps) simp
  next
    case False
    then show ?thesis using "1.prems" by (subst (1 2) scan.simps) simp
  qed
qed

lemma first_nonfalse_Some:
  "first_nonfalse vs ls a b = Some i \<Longrightarrow> a \<le> i \<and> i < b \<and> 0 \<le> vs (ls ! i) \<and> (\<forall>j. a \<le> j \<and> j < i \<longrightarrow> vs (ls ! j) < 0)"
  unfolding first_nonfalse_def
  by (auto simp: find_Some_iff nth_upt) (metis add.commute le_Suc_ex less_diff_conv nat_add_left_cancel_less not_le nth_upt)

lemma first_nonfalse_None:
  "first_nonfalse vs ls a b = None \<longleftrightarrow> (\<forall>j. a \<le> j \<and> j < b \<longrightarrow> vs (ls ! j) < 0)"
  unfolding first_nonfalse_def by (auto simp: find_None_iff)

lemma find_replacement_Inr:
  assumes "find_replacement vs n c = Inr (k, v, c')"
  shows "2 \<le> k" and "k \<le> length (literals c)" and "n = length (literals c)"
    and "c' = (if have_pos c then c\<lparr>pos := k\<rparr> else c)"
  using assms
  by (auto simp: find_replacement_def Let_def split: if_splits prod.splits)

lemma find_replacement_pos:
  assumes "find_replacement vs n c = Inr (k, v, c')"
  shows "2 \<le> k \<and> k \<le> length (literals c') \<and> literals c' = literals c 
     \<and> have_pos c' = have_pos c \<and> garbage c' = garbage c \<and> (have_pos c \<longrightarrow> pos c' = k) \<and> (\<not> have_pos c \<longrightarrow> c' = c)"
  using find_replacement_Inr [OF assms] by auto

lemma find_replacement_total:
  assumes "n = length (literals c)" "2 \<le> n" "have_pos c \<longrightarrow> 2 \<le> pos c \<and> pos c \<le> n"
  shows "\<exists>k v c'. find_replacement vs n c = Inr (k, v, c')"
proof (cases "have_pos c")
  case True
  obtain k1 v1 where s1: "scan vs (literals c) (pos c) n (- 1) = (k1, v1)" by fastforce
  have b1: "pos c \<le> k1 \<and> k1 \<le> n" using scan_bounds [of "pos c" n vs "literals c" "- 1"] assms True s1 by simp
  obtain k2 v2 where s2: "scan vs (literals c) 2 (pos c) v1 = (k2, v2)" by fastforce
  have b2: "2 \<le> k2 \<and> k2 \<le> pos c" using scan_bounds [of 2 "pos c" vs "literals c" v1] assms True s2 by simp
  show ?thesis using assms True s1 s2 b1 b2
    by (auto simp: find_replacement_def Let_def)
next
  case False
  obtain k1 v1 where s1: "scan vs (literals c) 2 n (- 1) = (k1, v1)" by fastforce
  have b1: "2 \<le> k1 \<and> k1 \<le> n" using scan_bounds [of 2 n vs "literals c" "- 1"] assms s1 by simp
  show ?thesis using assms False s1 b1
    by (auto simp: find_replacement_def Let_def)
qed

text \<open>
  C5, as the claim states it, fails: the saved position after a search is not the first
  position the search inspected. On \<open>gap_clause\<close> the search starts at the saved
  position 2, finds the unassigned literal at position 3 and saves 3.
\<close>

theorem cache_first_inspected_counterexample:
  "find_replacement gap_vals 5 gap_clause = Inr (3, 0, gap_clause\<lparr>pos := 3\<rparr>)
   \<and> pos gap_clause = 2 \<and> pos (gap_clause\<lparr>pos := 3\<rparr>) \<noteq> pos gap_clause"
  by (simp add: gap_clause_def gap_vals_def long_clause_def find_replacement_def scan.simps)

text \<open>
  C5, amended. For a clause with a saved position \<open>pos\<close> (between 2 and the size) the
  search has two phases: it returns the first true or unassigned literal from \<open>pos\<close>
  to the end; only if there is none, the first one from position 2 up to \<open>pos\<close>; and
  in every case, found or not, the position saved is the one where the search stopped:
  the position of the literal found, or \<open>pos\<close> itself when every literal searched is
  false.
\<close>

theorem find_replacement_two_phase:
  assumes "have_pos c" and "n = length (literals c)" and "2 \<le> pos c" and "pos c \<le> n"
  shows "(\<forall>k. first_nonfalse vs (literals c) (pos c) n = Some k \<longrightarrow>
            find_replacement vs n c = Inr (k, vs (literals c ! k), c\<lparr>pos := k\<rparr>))
       \<and> (\<forall>k. first_nonfalse vs (literals c) (pos c) n = None \<and>
              first_nonfalse vs (literals c) 2 (pos c) = Some k \<longrightarrow>
            find_replacement vs n c = Inr (k, vs (literals c ! k), c\<lparr>pos := k\<rparr>))
       \<and> (first_nonfalse vs (literals c) (pos c) n = None \<and>
              first_nonfalse vs (literals c) 2 (pos c) = None \<longrightarrow>
            (\<exists>v<0. find_replacement vs n c = Inr (pos c, v, c)))"
proof (intro conjI allI impI)
  fix k assume h: "first_nonfalse vs (literals c) (pos c) n = Some k"
  have s1: "scan vs (literals c) (pos c) n (- 1) = (k, vs (literals c ! k))"
    using scan_first_Some [OF h] .
  have k: "pos c \<le> k" "k < n" "0 \<le> vs (literals c ! k)"
    using first_nonfalse_Some [OF h] by auto
  show "find_replacement vs n c = Inr (k, vs (literals c ! k), c\<lparr>pos := k\<rparr>)"
    using assms s1 k by (simp add: find_replacement_def Let_def)
next
  fix k assume h: "first_nonfalse vs (literals c) (pos c) n = None \<and>
              first_nonfalse vs (literals c) 2 (pos c) = Some k"
  obtain k1 v1 where s1: "scan vs (literals c) (pos c) n (- 1) = (k1, v1)" by fastforce
  have v1: "v1 < 0" using scan_first_None [of vs "literals c" "pos c" n "- 1"] h assms s1 by simp
  have s2: "scan vs (literals c) 2 (pos c) v1 = (k, vs (literals c ! k))"
    using scan_first_Some h by blast
  have k: "2 \<le> k" "k < pos c" using first_nonfalse_Some h by blast+
  show "find_replacement vs n c = Inr (k, vs (literals c ! k), c\<lparr>pos := k\<rparr>)"
    using assms s1 v1 s2 k by (simp add: find_replacement_def Let_def)
next
  assume h: "first_nonfalse vs (literals c) (pos c) n = None \<and>
              first_nonfalse vs (literals c) 2 (pos c) = None"
  obtain k1 v1 where s1: "scan vs (literals c) (pos c) n (- 1) = (k1, v1)" by fastforce
  have v1: "v1 < 0" using scan_first_None [of vs "literals c" "pos c" n "- 1"] h assms s1 by simp
  obtain k2 v2 where s2: "scan vs (literals c) 2 (pos c) v1 = (k2, v2)" by fastforce
  have k2: "k2 = pos c" "v2 < 0"
    using scan_first_None [of vs "literals c" 2 "pos c" v1] h assms s2 v1 by simp_all
  have "find_replacement vs n c = Inr (pos c, v2, c)"
    using assms s1 v1 s2 k2 by (simp add: find_replacement_def Let_def)
  then show "\<exists>v<0. find_replacement vs n c = Inr (pos c, v, c)" using k2 by blast
qed

theorem find_replacement_two_phase_witness:
  "have_pos gap_clause \<and> 5 = length (literals gap_clause)
   \<and> 2 \<le> pos gap_clause \<and> pos gap_clause \<le> 5
   \<and> first_nonfalse gap_vals (literals gap_clause) (pos gap_clause) 5 = Some 3
   \<and> find_replacement gap_vals 5 gap_clause
       = Inr (3, gap_vals (literals gap_clause ! 3), gap_clause\<lparr>pos := 3\<rparr>)"
proof -
  have h: "have_pos gap_clause" "5 = length (literals gap_clause)" "2 \<le> pos gap_clause"
    "pos gap_clause \<le> 5"
    by (simp_all add: gap_clause_def long_clause_def)
  have f: "first_nonfalse gap_vals (literals gap_clause) (pos gap_clause) 5 = Some 3"
    by (simp add: first_nonfalse_def gap_clause_def gap_vals_def long_clause_def upt_rec)
  show ?thesis using h f find_replacement_two_phase [OF h, of gap_vals] by simp
qed

section \<open>One watch\<close>

lemma set_clause_twice [simp]: "set_clause r c (set_clause r c' s) = set_clause r c s"
  by (simp add: set_clause_def)

lemma set_clause_fields [simp]:
  "vals (set_clause r c s) = vals s" "trail (set_clause r c s) = trail s"
  "propagated (set_clause r c s) = propagated s" "conflict (set_clause r c s) = conflict s"
  "watches (set_clause r c s) = watches s" "clauses (set_clause r c s) = (clauses s)(r \<mapsto> c)"
  "val (set_clause r c s) = val s"
  "level (set_clause r c s) = level s" "simplifying (set_clause r c s) = simplifying s"
  "unsat (set_clause r c s) = unsat s" "ftab (set_clause r c s) = ftab s"
  by (simp_all add: set_clause_def val_def fun_eq_iff)

lemma propagate_long_cases [consumes 1, case_names Satisfied Found_True Replace Unit Conflict]:
  assumes "propagate_long lit w c1 s1 = Inr (s', r, brk)"
  obtains
    (Satisfied) "val s1 (literals c1 ! 0) > 0" "s' = s1"
      "r = Some (w\<lparr>blit := literals c1 ! 0\<rparr>)" "\<not> brk"
  | (Found_True) k v c2 where "val s1 (literals c1 ! 0) \<le> 0"
      "find_replacement (vals s1) (size_w w) c1 = Inr (k, v, c2)" "v > 0"
      "s' = set_clause (clause_w w) c2 s1"
      "r = Some (w\<lparr>blit := literals c1 ! k\<rparr>)" "\<not> brk"
  | (Replace) k v c2 where "val s1 (literals c1 ! 0) \<le> 0"
      "find_replacement (vals s1) (size_w w) c1 = Inr (k, v, c2)" "v = 0"
      "swap 1 k (literals c1) ! 1 \<noteq> lit"
      "s' = watch_literal (swap 1 k (literals c1) ! 1) lit (clause_w w) (size_w w)
              (set_clause (clause_w w) (c2\<lparr>literals := swap 1 k (literals c1)\<rparr>) s1)"
      "r = None" "\<not> brk"
  | (Unit) k v c2 where "val s1 (literals c1 ! 0) = 0"
      "find_replacement (vals s1) (size_w w) c1 = Inr (k, v, c2)" "v < 0"
      "inlined_assign (literals c1 ! 0) (Some (clause_w w))
          (set_clause (clause_w w) c2 s1) = Inr s'"
      "r = Some w" "\<not> brk"
  | (Conflict) k v c2 where "val s1 (literals c1 ! 0) < 0"
      "find_replacement (vals s1) (size_w w) c1 = Inr (k, v, c2)" "v < 0"
      "s' = (set_clause (clause_w w) c2 s1)\<lparr>conflict := Some (clause_w w)\<rparr>"
      "r = Some w" "brk"
proof (cases "val s1 (literals c1 ! 0) > 0")
  case True
  have "s' = s1 \<and> r = Some (w\<lparr>blit := literals c1 ! 0\<rparr>) \<and> \<not> brk"
    using assms True by (auto simp: propagate_long_def Let_def)
  then show ?thesis using Satisfied True by blast
next
  case u: False
  then obtain k v c2 where fr: "find_replacement (vals s1) (size_w w) c1 = Inr (k, v, c2)"
    using assms by (auto simp: propagate_long_def Let_def split: sum.splits)
  have u': "val s1 (literals c1 ! 0) \<le> 0" using u by simp
  consider "v > 0" | "v = 0" | "v < 0" "val s1 (literals c1 ! 0) = 0"
    | "v < 0" "val s1 (literals c1 ! 0) < 0"
    using u by linarith
  then show ?thesis
  proof cases
    case 1
    have "s' = set_clause (clause_w w) c2 s1 \<and> r = Some (w\<lparr>blit := literals c1 ! k\<rparr>) \<and> \<not> brk"
      using assms u fr 1 by (auto simp: propagate_long_def Let_def)
    then show ?thesis using Found_True [OF u' fr 1] by blast
  next
    case 2
    have "swap 1 k (literals c1) ! 1 \<noteq> lit \<and>
       s' = watch_literal (swap 1 k (literals c1) ! 1) lit (clause_w w) (size_w w)
        (set_clause (clause_w w) (c2\<lparr>literals := swap 1 k (literals c1)\<rparr>) s1)
       \<and> r = None \<and> \<not> brk"
      using assms u fr 2 by (auto simp: propagate_long_def Let_def split: if_splits)
    then show ?thesis using Replace [OF u' fr 2] by blast
  next
    case 3
    have "inlined_assign (literals c1 ! 0) (Some (clause_w w))
            (set_clause (clause_w w) c2 s1) = Inr s' \<and> r = Some w \<and> \<not> brk"
      using assms u fr 3 by (auto simp: propagate_long_def Let_def split: sum.splits)
    then show ?thesis using Unit [OF 3(2) fr 3(1)] by blast
  next
    case 4
    have "s' = (set_clause (clause_w w) c2 s1)\<lparr>conflict := Some (clause_w w)\<rparr>
         \<and> r = Some w \<and> brk"
      using assms u fr 4 by (auto simp: propagate_long_def Let_def)
    then show ?thesis using Conflict [OF 4(2) fr 4(1)] by blast
  qed
qed

lemma propagate_watch_cases [consumes 1, case_names Blocked Binary_Conflict Binary_Assign
    Garbage Long]:
  assumes "propagate_watch lit w s = Inr (s', r, brk)"
  obtains
    (Blocked) "val s (blit w) > 0" "s' = s" "r = Some w" "\<not> brk"
  | (Binary_Conflict) "val s (blit w) < 0" "size_w w = 2"
      "s' = s\<lparr>conflict := Some (clause_w w)\<rparr>" "r = Some w" "\<not> brk"
  | (Binary_Assign) "val s (blit w) = 0" "size_w w = 2"
      "inlined_assign (blit w) (Some (clause_w w)) s = Inr s'" "r = Some w" "\<not> brk"
  | (Garbage) c0 where "val s (blit w) \<le> 0" "size_w w \<noteq> 2"
      "clauses s (clause_w w) = Some c0" "garbage c0" "s' = s" "r = Some w" "\<not> brk"
  | (Long) c0 where "val s (blit w) \<le> 0" "size_w w \<noteq> 2"
      "clauses s (clause_w w) = Some c0" "\<not> garbage c0" "2 \<le> length (literals c0)"
      "literals (normalise lit c0) ! 1 = lit"
      "propagate_long lit w (normalise lit c0)
         (set_clause (clause_w w) (normalise lit c0) s) = Inr (s', r, brk)"
proof -
  consider "val s (blit w) > 0" | "val s (blit w) \<le> 0" "size_w w = 2"
    | "val s (blit w) \<le> 0" "size_w w \<noteq> 2" by linarith
  then show thesis
  proof cases
    case 1
    have "s' = s \<and> r = Some w \<and> \<not> brk"
      using assms 1 by (auto simp: propagate_watch_def)
    then show ?thesis using Blocked 1 by blast
  next
    case 2
    show ?thesis
    proof (cases "val s (blit w) < 0")
      case True
      have "s' = s\<lparr>conflict := Some (clause_w w)\<rparr> \<and> r = Some w \<and> \<not> brk"
        using assms 2 True by (auto simp: propagate_watch_def)
      then show ?thesis using Binary_Conflict 2 True by blast
    next
      case False
      then have z: "val s (blit w) = 0" using 2 by simp
      have "inlined_assign (blit w) (Some (clause_w w)) s = Inr s' \<and> r = Some w \<and> \<not> brk"
        using assms 2 z by (auto simp: propagate_watch_def split: sum.splits)
      then show ?thesis using Binary_Assign 2 z by blast
    qed
  next
    case 3
    then obtain c0 where c0: "clauses s (clause_w w) = Some c0"
      using assms by (auto simp: propagate_watch_def split: option.splits)
    show ?thesis
    proof (cases "garbage c0")
      case True
      have "s' = s \<and> r = Some w \<and> \<not> brk"
        using assms 3 c0 True by (auto simp: propagate_watch_def)
      then show ?thesis using Garbage 3 c0 True by blast
    next
      case False
      have "2 \<le> length (literals c0) \<and> literals (normalise lit c0) ! 1 = lit \<and>
        propagate_long lit w (normalise lit c0)
         (set_clause (clause_w w) (normalise lit c0) s) = Inr (s', r, brk)"
        using assms 3 c0 False
        by (auto simp: propagate_watch_def Let_def split: if_splits)
      then show ?thesis using Long 3 c0 False by blast
    qed
  qed
qed

lemmas eval_defs = propagate_watch_def propagate_long_def normalise_def swap_def set_clause_def
  watch_literal_def val_def inlined_assign_closed propagate_def propagate_loop.simps
  propagate_literal_def vidx_def sign_def update_stats_def find_replacement_def scan.simps Let_def

lemma propagate_loop_conflict: "conflict s \<noteq> None \<Longrightarrow> propagate_loop s = Some (Inr s)"
  by (subst propagate_loop.simps) auto

lemma propagate_watches_binary_conflict:
  "size_w w = 2 \<Longrightarrow> val s (blit w) < 0 \<Longrightarrow>
     propagate_watches lit (w # rest) kept s
       = propagate_watches lit rest (kept @ [w]) (s\<lparr>conflict := Some (clause_w w)\<rparr>)"
  by (simp add: propagate_watch_def)

lemma propagate_watch_break:
  assumes "propagate_watch lit w s = Inr (s', r, True)"
  shows "r = Some w" and "conflict s' = Some (clause_w w)" and "trail s' = trail s"
    and "vals s' = vals s" and "size_w w \<noteq> 2"
proof -
  from assms have "r = Some w \<and> conflict s' = Some (clause_w w) \<and> trail s' = trail s
     \<and> vals s' = vals s \<and> size_w w \<noteq> 2"
  proof (cases rule: propagate_watch_cases)
    case (Long c0)
    from Long(7) show ?thesis
      by (cases rule: propagate_long_cases) (use Long in auto)
  qed auto
  then show "r = Some w" and "conflict s' = Some (clause_w w)" and "trail s' = trail s"
    and "vals s' = vals s" and "size_w w \<noteq> 2" by auto
qed

lemma update_stats_same:
  "update_stats (propagated s) s =
     (if conflict s \<noteq> None \<and> \<not> simplifying s
      then s\<lparr>stats := (stats s)\<lparr>conflicts := conflicts (stats s) + 1\<rparr>\<rparr> else s)"
  by (simp add: update_stats_def)

section \<open>Binary watches and entry with a conflict\<close>

text \<open>
  C8. A binary watch never reads the clause arena, so the garbage flag of its clause
  cannot matter: with a false blocking literal it sets its clause as the conflict, with
  an unassigned one it assigns the blocking literal with its clause as the reason, and
  its result is the same under any other arena. A watch that is not binary and whose
  blocking literal is not true is skipped when its clause is flagged garbage.
\<close>

theorem binary_watch_ignores_garbage:
  "(size_w w = 2 \<and> val s (blit w) < 0 \<longrightarrow>
      propagate_watch lit w s = Inr (s\<lparr>conflict := Some (clause_w w)\<rparr>, Some w, False))
   \<and> (size_w w = 2 \<and> val s (blit w) = 0 \<longrightarrow>
        propagate_watch lit w s =
          (case inlined_assign (blit w) (Some (clause_w w)) s of
             Inl e \<Rightarrow> Inl e | Inr s' \<Rightarrow> Inr (s', Some w, False)))
   \<and> (size_w w = 2 \<longrightarrow>
        propagate_watch lit w (s\<lparr>clauses := cs\<rparr>) =
          map_sum id (\<lambda>(s', r, brk). (s'\<lparr>clauses := cs\<rparr>, r, brk)) (propagate_watch lit w s))
   \<and> (size_w w \<noteq> 2 \<and> val s (blit w) \<le> 0 \<and> clauses s (clause_w w) = Some c \<and> garbage c \<longrightarrow>
        propagate_watch lit w s = Inr (s, Some w, False))"
proof (intro conjI impI)
  assume "size_w w = 2 \<and> val s (blit w) < 0"
  then show "propagate_watch lit w s = Inr (s\<lparr>conflict := Some (clause_w w)\<rparr>, Some w, False)"
    by (simp add: propagate_watch_def)
next
  assume "size_w w = 2 \<and> val s (blit w) = 0"
  then show "propagate_watch lit w s =
              (case inlined_assign (blit w) (Some (clause_w w)) s of
                 Inl e \<Rightarrow> Inl e | Inr s' \<Rightarrow> Inr (s', Some w, False))"
    by (simp add: propagate_watch_def)
next
  assume b: "size_w w = 2"
  have v: "val (s\<lparr>clauses := cs\<rparr>) (blit w) = val s (blit w)" by (simp add: val_def)
  consider "val s (blit w) > 0" | "val s (blit w) < 0" | "val s (blit w) = 0" by linarith
  then show "propagate_watch lit w (s\<lparr>clauses := cs\<rparr>) =
            map_sum id (\<lambda>(s', r, brk). (s'\<lparr>clauses := cs\<rparr>, r, brk)) (propagate_watch lit w s)"
  proof cases
    case 1
    then show ?thesis using v by (simp add: propagate_watch_def)
  next
    case 2
    then show ?thesis using v b by (simp add: propagate_watch_def)
  next
    case 3
    then show ?thesis using v b by (simp add: propagate_watch_def inlined_assign_closed)
  qed
next
  assume "size_w w \<noteq> 2 \<and> val s (blit w) \<le> 0 \<and> clauses s (clause_w w) = Some c \<and> garbage c"
  then show "propagate_watch lit w s = Inr (s, Some w, False)"
    by (auto simp: propagate_watch_def)
qed

theorem binary_watch_ignores_garbage_witness:
  "size_w (watch_of 2 2 0) = 2 \<and> val garbage_false (blit (watch_of 2 2 0)) < 0
   \<and> val garbage_open (blit (watch_of 2 2 0)) = 0
   \<and> (\<exists>c. clauses garbage_false 0 = Some c \<and> garbage c)
   \<and> propagate_watch 1 (watch_of 2 2 0) garbage_false
       = Inr (garbage_false\<lparr>conflict := Some 0\<rparr>, Some (watch_of 2 2 0), False)
   \<and> (\<exists>s'. propagate_watch 1 (watch_of 2 2 0) garbage_open = Inr (s', Some (watch_of 2 2 0), False)
         \<and> trail s' = [- 1, 2] \<and> reason (vtab s' 2) = Some 0)
   \<and> size_w (watch_of 5 3 0) \<noteq> 2 \<and> val garbage_long (blit (watch_of 5 3 0)) \<le> 0
   \<and> propagate_watch 4 (watch_of 5 3 0) garbage_long = Inr (garbage_long, Some (watch_of 5 3 0), False)"
proof -
  have h1: "size_w (watch_of 2 2 0) = 2 \<and> val garbage_false (blit (watch_of 2 2 0)) < 0"
    by (simp add: garbage_false_def example_defs val_def)
  have h2: "size_w (watch_of 2 2 0) = 2 \<and> val garbage_open (blit (watch_of 2 2 0)) = 0"
    by (simp add: garbage_open_def example_defs val_def)
  have g: "\<exists>c. clauses garbage_false 0 = Some c \<and> garbage c"
    by (simp add: garbage_false_def example_defs)
  have h4: "size_w (watch_of 5 3 0) \<noteq> 2 \<and> val garbage_long (blit (watch_of 5 3 0)) \<le> 0
     \<and> clauses garbage_long (clause_w (watch_of 5 3 0))
         = Some ((short_clause [4, 5, 6])\<lparr>garbage := True\<rparr>)
     \<and> garbage ((short_clause [4, 5, 6])\<lparr>garbage := True\<rparr>)"
    by (simp add: garbage_long_def example_defs val_def)
  have a: "inlined_assign (blit (watch_of 2 2 0)) (Some (clause_w (watch_of 2 2 0))) garbage_open
     = Inr (garbage_open\<lparr>vtab := (vtab garbage_open)(2 := \<lparr>level_var = 1, trail_var = 1, reason = Some 0\<rparr>),
          vals := (vals garbage_open)(2 := 1, - 2 := - 1),
          phases := (phases garbage_open)(2 := 1),
          ptab := (ptab garbage_open)(2 := 0), trail := [- 1, 2]\<rparr>)"
    by (simp add: garbage_open_def example_defs inlined_assign_closed vidx_def sign_def)
  show ?thesis
    using h1 h2 g h4 a
      binary_watch_ignores_garbage [where w = "watch_of 2 2 0" and s = garbage_false and lit = 1]
      binary_watch_ignores_garbage [where w = "watch_of 2 2 0" and s = garbage_open and lit = 1]
      binary_watch_ignores_garbage [where w = "watch_of 5 3 0" and s = garbage_long and lit = 4
        and c = "(short_clause [4, 5, 6])\<lparr>garbage := True\<rparr>"]
    by (simp add: watch_of_def)
qed

text \<open>
  C9. Entered with the conflict marker set (and the solver not yet unsatisfiable, line
  96), the loop leaves the state as it is: nothing is taken from the trail, nothing is
  assigned and both propagation counters stay as they are, since the difference added
  to them is zero. The call returns failure, and outside a simplification pass the
  conflict counter has grown by one.
\<close>

theorem propagate_entered_with_conflict:
  assumes "conflict s \<noteq> None" and "\<not> unsat s"
  shows "propagate_loop s = Some (Inr s)
    \<and> propagate s = Some (Inr (if simplifying s then s
         else s\<lparr>stats := (stats s)\<lparr>conflicts := conflicts (stats s) + 1\<rparr>\<rparr>, False))"
  using assms by (auto simp: propagate_def propagate_loop_conflict update_stats_same)

theorem propagate_entered_with_conflict_witness:
  "conflict (two_binaries\<lparr>conflict := Some 0\<rparr>) \<noteq> None
   \<and> \<not> unsat (two_binaries\<lparr>conflict := Some 0\<rparr>)
   \<and> propagate (two_binaries\<lparr>conflict := Some 0\<rparr>)
       = Some (Inr (two_binaries\<lparr>conflict := Some 0,
            stats := \<lparr>fixed = 0, propagations = 0, probagations = 0, conflicts = 1\<rparr>\<rparr>, False))"
proof -
  have h: "conflict (two_binaries\<lparr>conflict := Some 0\<rparr>) \<noteq> None"
    "\<not> unsat (two_binaries\<lparr>conflict := Some 0\<rparr>)"
    by (simp_all add: two_binaries_def blank_def)
  show ?thesis using h propagate_entered_with_conflict [OF h]
    by (simp add: two_binaries_def blank_def)
qed

section \<open>The watch structure is preserved\<close>

lemma length_swap [simp]: "length (swap a b xs) = length xs"
  by (simp add: swap_def)

lemma set_swap [simp]: "a < length xs \<Longrightarrow> b < length xs \<Longrightarrow> set (swap a b xs) = set xs"
  unfolding swap_def by (metis set_swap)

lemma distinct_swap_iff [simp]:
  "a < length xs \<Longrightarrow> b < length xs \<Longrightarrow> distinct (swap a b xs) = distinct xs"
  unfolding swap_def by (metis distinct_swap)

lemma nth_swap:
  "a < length xs \<Longrightarrow> b < length xs \<Longrightarrow> i < length xs \<Longrightarrow>
     swap a b xs ! i = (if i = b then xs ! a else if i = a then xs ! b else xs ! i)"
  by (auto simp: swap_def nth_list_update)

lemma same_watching_refl [simp]: "same_watching c c"
  by (simp add: same_watching_def)

lemma same_watching_trans: "same_watching a b \<Longrightarrow> same_watching b c \<Longrightarrow> same_watching a c"
  by (simp add: same_watching_def)

lemma same_watching_normalise:
  assumes "2 \<le> length (literals c)"
  shows "same_watching c (normalise lit c)"
proof -
  have a: "0 < length (literals c)" "1 < length (literals c)" using assms by auto
  show ?thesis using a by (auto simp: same_watching_def watching_def normalise_def nth_swap)
qed

lemma same_watching_pos [simp]: "same_watching c (c'\<lparr>pos := k\<rparr>) = same_watching c c'"
  by (simp add: same_watching_def watching_def)

lemma find_replacement_same:
  "find_replacement vs n c = Inr (k, v, c') \<Longrightarrow> same_watching c c'"
  using find_replacement_pos [of vs n c k v c'] by (auto simp: same_watching_def watching_def)

lemma find_replacement_found:
  assumes "find_replacement vs n c = Inr (k, v, c')" and "0 \<le> v"
  shows "k < length (literals c) \<and> v = vs (literals c ! k)"
proof -
  have n: "n = length (literals c)" using find_replacement_Inr [OF assms(1)] by simp
  show ?thesis
  proof (cases "have_pos c")
    case True
    then have p: "pos c \<le> n" using assms(1) n
      by (auto simp: find_replacement_def Let_def split: if_splits)
    obtain k1 v1 where s1: "scan vs (literals c) (pos c) n (- 1) = (k1, v1)" by fastforce
    show ?thesis
    proof (cases "v1 < 0")
      case neg: True
      obtain k2 v2 where s2: "scan vs (literals c) 2 (pos c) v1 = (k2, v2)" by fastforce
      have kv: "k = k2" "v = v2" and m: "2 \<le> pos c"
        using assms(1) n True p s1 neg s2
        by (auto simp: find_replacement_def Let_def split: if_splits)
      have "k2 < pos c"
        using scan_nonneg_found [of 2 "pos c" vs "literals c" v1] m assms(2) kv s2 neg by simp
      moreover have "v2 = vs (literals c ! k2)"
        using scan_found [of vs "literals c" 2 "pos c" v1] s2 \<open>k2 < pos c\<close> by simp
      ultimately show ?thesis using kv p n by simp
    next
      case False
      have kv: "k = k1" "v = v1"
        using assms(1) n True p s1 False
        by (auto simp: find_replacement_def Let_def split: if_splits)
      have "k1 < n"
        using scan_nonneg_found [of "pos c" n vs "literals c" "- 1"] p False s1 by simp
      moreover have "v1 = vs (literals c ! k1)"
        using scan_found [of vs "literals c" "pos c" n "- 1"] s1 \<open>k1 < n\<close> by simp
      ultimately show ?thesis using kv n by simp
    qed
  next
    case False
    obtain k1 v1 where s1: "scan vs (literals c) 2 n (- 1) = (k1, v1)" by fastforce
    have kv: "k = k1" "v = v1" and m: "2 \<le> n"
      using assms(1) n False s1
      by (auto simp: find_replacement_def Let_def split: if_splits)
    have "k1 < n"
      using scan_nonneg_found [of 2 n vs "literals c" "- 1"] m assms(2) kv s1 by simp
    moreover have "v1 = vs (literals c ! k1)"
      using scan_found [of vs "literals c" 2 n "- 1"] s1 \<open>k1 < n\<close> by simp
    ultimately show ?thesis using kv n by simp
  qed
qed

lemma scan_all_false:
  assumes "scan vs ls a e v0 = (k, v)" and "v < 0" and "a \<le> e" and "a \<le> j" and "j < e"
  shows "vs (ls ! j) < 0"
proof -
  have "\<not> k < e" using scan_found [of vs ls a e v0] assms(1,2) by auto
  moreover have "k \<le> e" using scan_bounds [of a e vs ls v0] assms(1,3) by simp
  ultimately have "k = e" by simp
  then show ?thesis using scan_skipped [of a j vs ls e v0] assms by simp
qed

lemma find_replacement_none:
  assumes "find_replacement vs n c = Inr (k, v, c')" and "v < 0"
    and "2 \<le> j" and "j < length (literals c)"
  shows "vs (literals c ! j) < 0"
proof -
  have n: "n = length (literals c)" using find_replacement_Inr [OF assms(1)] by simp
  show ?thesis
  proof (cases "have_pos c")
    case True
    then have p: "pos c \<le> n" using assms(1) n
      by (auto simp: find_replacement_def Let_def split: if_splits)
    obtain k1 v1 where s1: "scan vs (literals c) (pos c) n (- 1) = (k1, v1)" by fastforce
    have neg: "v1 < 0"
      using assms(1,2) n True p s1
      by (auto simp: find_replacement_def Let_def split: if_splits)
    obtain k2 v2 where s2: "scan vs (literals c) 2 (pos c) v1 = (k2, v2)" by fastforce
    have kv: "k = k2" "v = v2" and m: "2 \<le> pos c"
      using assms(1) n True p s1 neg s2
      by (auto simp: find_replacement_def Let_def split: if_splits)
    show ?thesis
    proof (cases "j < pos c")
      case True
      then show ?thesis using scan_all_false [OF s2 _ m assms(3)] assms(2) kv by simp
    next
      case False
      then show ?thesis using scan_all_false [OF s1 neg p, of j] assms(4) n by simp
    qed
  next
    case False
    obtain k1 v1 where s1: "scan vs (literals c) 2 n (- 1) = (k1, v1)" by fastforce
    have kv: "k = k1" "v = v1" and m: "2 \<le> n"
      using assms(1) n False s1
      by (auto simp: find_replacement_def Let_def split: if_splits)
    show ?thesis using scan_all_false [OF s1 _ m assms(3)] assms(2,4) kv n by simp
  qed
qed

lemma set_clause_same: "clauses s r = Some c \<Longrightarrow> set_clause r c s = s"
  by (simp add: set_clause_def map_upd_triv)

lemma binary_literals:
  assumes "length ls = 2" and "ls ! 0 = l \<or> ls ! 1 = l" and "b \<in> set ls" and "b \<noteq> l"
  shows "set ls = {l, b}"
proof -
  obtain x y where ls: "ls = [x, y]"
    using assms(1) by (metis (no_types, opaque_lifting) One_nat_def Suc_1 length_0_conv length_Suc_conv)
  then show ?thesis using assms by auto
qed

lemma all_false_nth:
  "(\<And>j. j < length (literals c) \<Longrightarrow> vs (literals c ! j) < 0) \<Longrightarrow> all_false vs c"
  by (auto simp: all_false_def in_set_conv_nth)

lemma same_watching_all_false: "same_watching c c' \<Longrightarrow> all_false vs c' = all_false vs c"
  by (simp add: same_watching_def all_false_def)

lemma same_watching_sat: "same_watching c c' \<Longrightarrow> sat vs c' = sat vs c"
  by (simp add: same_watching_def sat_def)

lemma same_watching_sym: "same_watching c c' \<Longrightarrow> same_watching c' c"
  by (auto simp: same_watching_def)

lemma propagate_watch_summary [consumes 3, case_names Keep Assign Confl Repl]:
  assumes step: "propagate_watch lit w s = Inr (s', r, brk)"
    and wok: "watch_ok (clauses s) lit w"
    and lf: "vals s lit < 0"
  obtains
    (Keep) c c' w' where "clauses s (clause_w w) = Some c" "same_watching c c'"
      "s' = set_clause (clause_w w) c' s" "r = Some w'" "clause_w w' = clause_w w"
      "size_w w' = size_w w" "blit w' = blit w \<or> size_w w \<noteq> 2 \<and> blit w' \<in> set (literals c)"
      "garbage c \<or> sat (vals s) c" "\<not> brk"
  | (Assign) c c' x where "clauses s (clause_w w) = Some c" "same_watching c c'"
      "inlined_assign x (Some (clause_w w)) (set_clause (clause_w w) c' s) = Inr s'"
      "x \<in> set (literals c)" "r = Some w" "\<not> brk"
  | (Confl) c c' where "clauses s (clause_w w) = Some c" "same_watching c c'"
      "s' = (set_clause (clause_w w) c' s)\<lparr>conflict := Some (clause_w w)\<rparr>"
      "all_false (vals s) c" "r = Some w" "size_w w = 2 \<or> \<not> garbage c"
  | (Repl) c c' k where "clauses s (clause_w w) = Some c" "\<not> garbage c" "size_w w \<noteq> 2"
      "same_watching c c'" "literals c' ! 1 = lit" "2 \<le> k" "k < length (literals c')"
      "vals s (literals c' ! k) = 0" "literals c' ! k \<noteq> lit"
      "s' = watch_literal (literals c' ! k) lit (clause_w w) (size_w w)
              (set_clause (clause_w w) (c'\<lparr>literals := swap 1 k (literals c')\<rparr>) s)"
      "r = None" "\<not> brk"
proof -
  from wok obtain c where c: "clauses s (clause_w w) = Some c"
    and cw: "size_w w = 2 \<or> \<not> garbage c \<Longrightarrow>
         size_w w = length (literals c) \<and> (literals c ! 0 = lit \<or> literals c ! 1 = lit) \<and>
         blit w \<in> set (literals c) \<and> (size_w w = 2 \<longrightarrow> blit w \<noteq> lit)"
    by (auto simp: watch_ok_def watching_def)
  note same = set_clause_same [OF c]
  from step show thesis
  proof (cases rule: propagate_watch_cases)
    case Blocked
    have "garbage c \<or> sat (vals s) c"
    proof (cases "garbage c")
      case False
      then have "blit w \<in> set (literals c)" using cw by simp
      then show ?thesis using Blocked(1) by (auto simp: sat_def val_def)
    qed simp
    then show ?thesis using Keep [of c c w] c same Blocked by simp
  next
    case Binary_Conflict
    have b: "set (literals c) = {lit, blit w}"
      using cw Binary_Conflict(2) binary_literals [of "literals c" lit "blit w"] by auto
    have "all_false (vals s) c"
      using b lf Binary_Conflict(1) by (simp add: all_false_def val_def)
    then show ?thesis using Confl [of c c] c same Binary_Conflict by simp
  next
    case Binary_Assign
    have "blit w \<in> set (literals c)" using cw Binary_Assign(2) by simp
    then show ?thesis using Assign [of c c "blit w"] c same Binary_Assign by simp
  next
    case (Garbage c0)
    then show ?thesis using Keep [of c c w] c same by simp
  next
    case (Long c0)
    have c0: "c0 = c" using Long(3) c by simp
    define c1 where "c1 = normalise lit c"
    have ng: "\<not> garbage c" and len: "2 \<le> length (literals c)" using Long c0 by simp_all
    have sw1: "same_watching c c1" unfolding c1_def by (rule same_watching_normalise [OF len])
    have l1: "literals c1 ! 1 = lit" using Long(6) c0 c1_def by simp
    have n: "size_w w = length (literals c)" using cw ng by simp
    have len1: "length (literals c1) = length (literals c)" "set (literals c1) = set (literals c)"
      using sw1 by (simp_all add: same_watching_def)
    from Long(7) [unfolded c0, folded c1_def] show ?thesis
    proof (cases rule: propagate_long_cases)
      case Satisfied
      have in0: "literals c1 ! 0 \<in> set (literals c)"
        using len len1 by (metis nth_mem less_le_trans zero_less_numeral)
      then have "sat (vals s) c" using Satisfied(1) by (auto simp: sat_def val_def)
      then show ?thesis
        using Keep [of c c1 "w\<lparr>blit := literals c1 ! 0\<rparr>"] c sw1 Satisfied Long(2) in0 by simp
    next
      case (Found_True k v c2)
      have f: "k < length (literals c1) \<and> v = vals s (literals c1 ! k)"
        using find_replacement_found [OF Found_True(2)] Found_True(3) by simp
      then have ink: "literals c1 ! k \<in> set (literals c)" using len1 by (metis nth_mem)
      then have "sat (vals s) c" using f Found_True(3) by (auto simp: sat_def)
      moreover have "same_watching c c2"
        using same_watching_trans [OF sw1 find_replacement_same [OF Found_True(2)]] .
      ultimately show ?thesis
        using Keep [of c c2 "w\<lparr>blit := literals c1 ! k\<rparr>"] c Found_True Long(2) ink by simp
    next
      case (Replace k v c2)
      have f: "k < length (literals c1) \<and> v = vals s (literals c1 ! k)"
        using find_replacement_found [OF Replace(2)] Replace(3) by simp
      have p: "2 \<le> k \<and> literals c2 = literals c1"
        using find_replacement_pos [OF Replace(2)] by simp
      have sw2: "same_watching c c2"
        using same_watching_trans [OF sw1 find_replacement_same [OF Replace(2)]] .
      have nk: "swap 1 k (literals c1) ! 1 = literals c1 ! k"
        using f p len len1 by (simp add: nth_swap)
      show ?thesis
        using Repl [of c c2 k] c ng Long(2) sw2 l1 p f Replace nk by simp
    next
      case (Unit k v c2)
      have in0: "literals c1 ! 0 \<in> set (literals c)"
        using len len1 by (metis nth_mem less_le_trans zero_less_numeral)
      have sw2: "same_watching c c2"
        using same_watching_trans [OF sw1 find_replacement_same [OF Unit(2)]] .
      show ?thesis using Assign [of c c2 "literals c1 ! 0"] c sw2 in0 Unit by simp
    next
      case (Conflict k v c2)
      have sw2: "same_watching c c2"
        using same_watching_trans [OF sw1 find_replacement_same [OF Conflict(2)]] .
      have "vals s (literals c1 ! j) < 0" if "j < length (literals c1)" for j
      proof -
        consider "j = 0" | "j = 1" | "2 \<le> j" by linarith
        then show ?thesis
        proof cases
          case 1
          then show ?thesis using Conflict(1) by (simp add: val_def)
        next
          case 2
          then show ?thesis using l1 lf by simp
        next
          case 3
          then show ?thesis
            using find_replacement_none [OF Conflict(2) Conflict(3) 3 that] by simp
        qed
      qed
      then have "all_false (vals s) c1" by (rule all_false_nth)
      then have "all_false (vals s) c" using same_watching_all_false [OF sw1] by simp
      then show ?thesis using Confl [of c c2] c sw2 ng Conflict by simp
    qed
  qed
qed

lemma db_wf_update:
  "db_wf cs \<Longrightarrow> cs i = Some c \<Longrightarrow> same_watching c c' \<Longrightarrow> db_wf (cs(i \<mapsto> c'))"
  by (auto simp: db_wf_def same_watching_def)

lemma watch_ok_update:
  assumes "watch_ok cs l w" and "cs i = Some c" and "same_watching c c'"
  shows "watch_ok (cs(i \<mapsto> c')) l w"
proof (cases "clause_w w = i")
  case True
  then show ?thesis using assms unfolding watch_ok_def same_watching_def by auto
next
  case False
  then show ?thesis using assms(1) by (simp add: watch_ok_def)
qed

lemma watches_wf_update:
  "watches_wf cs W \<Longrightarrow> cs i = Some c \<Longrightarrow> same_watching c c' \<Longrightarrow> watches_wf (cs(i \<mapsto> c')) W"
  by (simp add: watches_wf_def watch_ok_update)

lemma watches_wfI:
  "(\<And>l. distinct (map clause_w (W l))) \<Longrightarrow> (\<And>l w. w \<in> set (W l) \<Longrightarrow> watch_ok cs l w) \<Longrightarrow>
     watches_wf cs W"
  by (simp add: watches_wf_def)

lemma watches_wf_distinct: "watches_wf cs W \<Longrightarrow> distinct (map clause_w (W l))"
  by (simp add: watches_wf_def)

lemma watches_wf_ok: "watches_wf cs W \<Longrightarrow> w \<in> set (W l) \<Longrightarrow> watch_ok cs l w"
  by (simp add: watches_wf_def)

lemma watches_wf_replace:
  assumes "watches_wf cs (W(l := kept @ w # rest))" and "clause_w w' = clause_w w"
    and "watch_ok cs l w'"
  shows "watches_wf cs (W(l := kept @ w' # rest))"
proof (rule watches_wfI)
  fix m
  show "distinct (map clause_w ((W(l := kept @ w' # rest)) m))"
    using watches_wf_distinct [OF assms(1), of m] assms(2) by (cases "m = l") auto
next
  fix m v assume v: "v \<in> set ((W(l := kept @ w' # rest)) m)"
  show "watch_ok cs m v"
  proof (cases "m = l")
    case True
    then have "v = w' \<or> v \<in> set ((W(l := kept @ w # rest)) l)" using v by auto
    then show ?thesis using assms(3) watches_wf_ok [OF assms(1), of v l] True by auto
  next
    case False
    then show ?thesis using watches_wf_ok [OF assms(1), of v m] v by simp
  qed
qed

lemma assigned_zero:
  assumes "val_symmetric vs" and "vs (vidx x) = 0"
  shows "vs x = 0" and "vs (- x) = 0"
proof -
  have "vs (- x) = - vs x" using assms(1) by (simp add: val_symmetric_def)
  moreover have "vidx x = x \<or> vidx x = - x" by (auto simp: vidx_def)
  ultimately show "vs x = 0" and "vs (- x) = 0" using assms(2) by auto
qed

lemma assign_keeps:
  "vs x = 0 \<Longrightarrow> vs (- x) = 0 \<Longrightarrow> vs l \<noteq> 0 \<Longrightarrow> (vs(x := 1, - x := - 1)) l = vs l"
  by auto

lemma assignment_ok_assign:
  assumes "assignment_ok s" and "inlined_assign x rsn s = Inr s'"
  shows "assignment_ok s'"
proof -
  note a = inlined_assign_Inr [OF assms(2)]
  have sym: "val_symmetric (vals s)" using assms(1) by (simp add: assignment_ok_def)
  note z = assigned_zero [OF sym a(2)]
  have "val_symmetric (vals s')" using val_symmetric_assign [OF sym a(1)] a(3) by simp
  moreover have "vals s' l > 0" if "l \<in> set (trail s')" for l
  proof (cases "l = x")
    case True
    then show ?thesis using a(1,3) by simp
  next
    case False
    then have "l \<in> set (trail s)" using that a(4) by simp
    then have "vals s l > 0" using assms(1) by (simp add: assignment_ok_def)
    then show ?thesis using a(3) z by auto
  qed
  moreover have "propagated s' \<le> length (trail s')"
    using assms(1) a(4,5) by (simp add: assignment_ok_def)
  ultimately show ?thesis by (simp add: assignment_ok_def)
qed

lemma assign_false_stays:
  assumes "val_symmetric (vals s)" and "inlined_assign x rsn s = Inr s'" and "vals s l \<noteq> 0"
  shows "vals s' l = vals s l"
proof -
  note a = inlined_assign_Inr [OF assms(2)]
  note z = assigned_zero [OF assms(1) a(2)]
  show ?thesis using a(3) z assms(3) by auto
qed

lemma all_false_assign:
  assumes "val_symmetric (vals s)" and "inlined_assign x rsn s = Inr s'" and "all_false (vals s) c"
  shows "all_false (vals s') c"
  unfolding all_false_def
proof
  fix y assume "y \<in> set (literals c)"
  then have "vals s y < 0" using assms(3) by (simp add: all_false_def)
  then show "vals s' y < 0" using assign_false_stays [OF assms(1,2), of y] by simp
qed

lemma assignment_ok_fields:
  "vals t = vals s \<Longrightarrow> trail t = trail s \<Longrightarrow> propagated t = propagated s \<Longrightarrow>
     assignment_ok t = assignment_ok s"
  by (simp add: assignment_ok_def)

lemma conflict_false_update:
  assumes "conflict_false s" and "clauses s i = Some c" and "same_watching c c'"
  shows "conflict_false (set_clause i c' s)"
  unfolding conflict_false_def
proof (intro allI impI)
  fix j assume j: "conflict (set_clause i c' s) = Some j"
  then obtain d where d: "clauses s j = Some d" "all_false (vals s) d"
    using assms(1) by (auto simp: conflict_false_def)
  show "\<exists>c. clauses (set_clause i c' s) j = Some c \<and> all_false (vals (set_clause i c' s)) c"
  proof (cases "j = i")
    case True
    then show ?thesis using d assms(2,3) same_watching_all_false [OF assms(3)] by simp
  next
    case False
    then show ?thesis using d by simp
  qed
qed

lemma swap_1_k:
  assumes "2 \<le> k" and "k < length xs"
  shows "swap 1 k xs ! 0 = xs ! 0" and "swap 1 k xs ! 1 = xs ! k" and "swap 1 k xs ! k = xs ! 1"
    and "set (swap 1 k xs) = set xs" and "distinct (swap 1 k xs) = distinct xs"
    and "length (swap 1 k xs) = length xs"
proof -
  have a: "0 < length xs" "1 < length xs" "k < length xs" "k \<noteq> 0" "k \<noteq> 1" "(1::nat) \<noteq> 0"
    using assms by auto
  show "swap 1 k xs ! 0 = xs ! 0" using a nth_swap [of 1 xs k 0] by simp
  show "swap 1 k xs ! 1 = xs ! k" using a nth_swap [of 1 xs k 1] by simp
  show "swap 1 k xs ! k = xs ! 1" using a nth_swap [of 1 xs k k] by simp
  show "set (swap 1 k xs) = set xs" using a by simp
  show "distinct (swap 1 k xs) = distinct xs" using a by simp
  show "length (swap 1 k xs) = length xs" by simp
qed

text \<open>The facts about a clause whose second watch moves to position \<open>k\<close>.\<close>

lemma replaced_clause:
  assumes db: "db_wf cs" and c: "cs i = Some c" "\<not> garbage c" and sw: "same_watching c c'"
    and l1: "literals c' ! 1 = lit" and k: "2 \<le> k" "k < length (literals c')"
  defines "c3 \<equiv> c'\<lparr>literals := swap 1 k (literals c')\<rparr>"
  shows "distinct (literals c')" and "literals c' ! k \<noteq> literals c' ! 0"
    and "literals c' ! 0 \<noteq> lit"
    and "watching c l = (l = literals c' ! 0 \<or> l = lit)"
    and "watching c3 l = (l = literals c' ! 0 \<or> l = literals c' ! k)"
    and "set (literals c3) = set (literals c)" and "length (literals c3) = length (literals c)"
    and "garbage c3 = garbage c" and "distinct (literals c3)"
    and "lit \<in> set (literals c3)"
proof -
  have d: "distinct (literals c)" "2 \<le> length (literals c)" using db c by (auto simp: db_wf_def)
  show d': "distinct (literals c')" using d sw by (simp add: same_watching_def)
  have len: "length (literals c') = length (literals c)" "set (literals c') = set (literals c)"
    "garbage c' = garbage c"
    using sw by (simp_all add: same_watching_def)
  have a: "0 < length (literals c')" "1 < length (literals c')" using k by auto
  show "literals c' ! k \<noteq> literals c' ! 0"
    using d' k a by (simp add: nth_eq_iff_index_eq)
  show "literals c' ! 0 \<noteq> lit"
    using d' a l1 nth_eq_iff_index_eq [of "literals c'" 0 1] by auto
  have "watching c l = watching c' l" using sw by (simp add: same_watching_def)
  then show "watching c l = (l = literals c' ! 0 \<or> l = lit)"
    unfolding watching_def [of c'] using l1 by auto
  note s = swap_1_k [OF k]
  show "watching c3 l = (l = literals c' ! 0 \<or> l = literals c' ! k)"
    using s by (auto simp: c3_def watching_def)
  show "set (literals c3) = set (literals c)" using s len by (simp add: c3_def)
  show "length (literals c3) = length (literals c)" using len by (simp add: c3_def)
  show "garbage c3 = garbage c" using len by (simp add: c3_def)
  show "distinct (literals c3)" using s d' by (simp add: c3_def)
  show "lit \<in> set (literals c3)"
    using s l1 a by (metis c3_def clause.select_convs(1) clause.surjective clause.update_convs(1) nth_mem)
qed

lemma watches_wf_repl:
  assumes wf: "watches_wf cs (W(lit := kept @ w # rest))" and db: "db_wf cs"
    and c: "cs (clause_w w) = Some c" "\<not> garbage c" and sz: "size_w w \<noteq> 2"
    and sw: "same_watching c c'" and l1: "literals c' ! 1 = lit"
    and k: "2 \<le> k" "k < length (literals c')" and ne: "literals c' ! k \<noteq> lit"
  shows "watches_wf (cs(clause_w w \<mapsto> c'\<lparr>literals := swap 1 k (literals c')\<rparr>))
     ((W(literals c' ! k := W (literals c' ! k) @
          [\<lparr>blit = lit, size_w = size_w w, clause_w = clause_w w\<rparr>]))(lit := kept @ rest))"
    (is "watches_wf ?cs' ?W'")
proof -
  define i where "i = clause_w w"
  define new where "new = literals c' ! k"
  define c3 where "c3 = c'\<lparr>literals := swap 1 k (literals c')\<rparr>"
  define nw where "nw = \<lparr>blit = lit, size_w = size_w w, clause_w = i\<rparr>"
  define W0 where "W0 = W(lit := kept @ w # rest)"
  note rc = replaced_clause [OF db c [folded i_def] sw l1 k, folded c3_def new_def]
  have c3: "?cs' = cs(i \<mapsto> c3)" by (simp add: i_def c3_def)
  have W'_lit: "?W' lit = kept @ rest" by simp
  have W'_new: "?W' new = W0 new @ [nw]" using ne by (simp add: new_def W0_def nw_def i_def)
  have W'_other: "?W' l = W0 l" if "l \<noteq> lit" "l \<noteq> new" for l
    using that by (simp add: new_def W0_def)
  have W0_lit: "W0 lit = kept @ w # rest" by (simp add: W0_def)
  have wok: "watch_ok cs lit w" using watches_wf_ok [OF wf, of w lit] by simp
  have wsz: "size_w w = length (literals c)"
    using wok c by (auto simp: watch_ok_def)
  have owner: "l = literals c' ! 0 \<or> l = lit" if "v \<in> set (W0 l)" "clause_w v = i" for l v
  proof -
    have "watch_ok cs l v" using watches_wf_ok [OF wf [folded W0_def] that(1)] .
    then have "watching c l" using that(2) c by (auto simp: watch_ok_def i_def)
    then show ?thesis using rc(4) by simp
  qed
  have dist_lit: "distinct (map clause_w (kept @ w # rest))"
    using watches_wf_distinct [OF wf [folded W0_def], of lit] W0_lit by simp
  have not_i: "clause_w v \<noteq> i" if "v \<in> set (kept @ rest)" for v
    using dist_lit that by (fastforce simp: i_def)
  have new_free: "i \<notin> clause_w ` set (W0 new)"
  proof
    assume "i \<in> clause_w ` set (W0 new)"
    then obtain v where "v \<in> set (W0 new)" "clause_w v = i" by auto
    then have "new = literals c' ! 0 \<or> new = lit" using owner by blast
    then show False using rc(2) ne by (simp add: new_def)
  qed
  have keep_ok: "watch_ok (cs(i \<mapsto> c3)) l v"
    if v: "v \<in> set (W0 l)" and l: "clause_w v = i \<Longrightarrow> l \<noteq> lit" for l v
  proof (cases "clause_w v = i")
    case False
    then show ?thesis using watches_wf_ok [OF wf [folded W0_def] v] by (simp add: watch_ok_def)
  next
    case True
    then have l0: "l = literals c' ! 0" using owner [OF v True] l by simp
    have o: "watch_ok cs l v" using watches_wf_ok [OF wf [folded W0_def] v] .
    then have "size_w v = length (literals c) \<and> blit v \<in> set (literals c)"
      using True c by (auto simp: watch_ok_def i_def)
    then show ?thesis
      using True l0 rc(5) [of l] rc(6,7) wsz sz by (simp add: watch_ok_def)
  qed
  show ?thesis unfolding c3
  proof (rule watches_wfI)
    fix l
    show "distinct (map clause_w (?W' l))"
    proof -
      consider "l = lit" | "l \<noteq> lit" "l = new" | "l \<noteq> lit" "l \<noteq> new" by blast
      then show ?thesis
      proof cases
        case 1
        then show ?thesis using dist_lit by simp
      next
        case 2
        have "distinct (map clause_w (W0 new))" using watches_wf_distinct [OF wf [folded W0_def]] .
        then show ?thesis using 2 W'_new new_free by (simp add: nw_def)
      next
        case 3
        then show ?thesis using W'_other watches_wf_distinct [OF wf [folded W0_def], of l] by simp
      qed
    qed
  next
    fix l v assume v: "v \<in> set (?W' l)"
    consider "l = lit" | "l \<noteq> lit" "l = new" "v = nw" | "l \<noteq> lit" "l = new" "v \<in> set (W0 new)"
      | "l \<noteq> lit" "l \<noteq> new"
      using v W'_new by (cases "l = lit"; cases "l = new") auto
    then show "watch_ok (cs(i \<mapsto> c3)) l v"
    proof cases
      case 1
      then have vin: "v \<in> set (kept @ rest)" using v by simp
      then have "v \<in> set (W0 lit)" using W0_lit by auto
      then show ?thesis using keep_ok [of v lit] not_i [OF vin] 1 by simp
    next
      case 2
      then show ?thesis
        using rc(5) [of new] rc(7,10) wsz sz by (simp add: watch_ok_def nw_def new_def)
    next
      case 3
      then show ?thesis using keep_ok [of v new] by simp
    next
      case 4
      then have "v \<in> set (W0 l)" using v W'_other by simp
      then show ?thesis using keep_ok [of v l] 4 by simp
    qed
  qed
qed

lemma db_wf_repl:
  assumes db: "db_wf cs" and c: "cs i = Some c" "\<not> garbage c" and sw: "same_watching c c'"
    and l1: "literals c' ! 1 = lit" and k: "2 \<le> k" "k < length (literals c')"
  shows "db_wf (cs(i \<mapsto> c'\<lparr>literals := swap 1 k (literals c')\<rparr>))"
proof -
  note rc = replaced_clause [OF db c sw l1 k]
  have "2 \<le> length (literals c)" using db c by (auto simp: db_wf_def)
  then show ?thesis using db rc(7,9) by (auto simp: db_wf_def)
qed

lemma watch_literal_fields [simp]:
  "vals (watch_literal l b c n s) = vals s" "trail (watch_literal l b c n s) = trail s"
  "propagated (watch_literal l b c n s) = propagated s"
  "conflict (watch_literal l b c n s) = conflict s"
  "clauses (watch_literal l b c n s) = clauses s"
  "watches (watch_literal l b c n s)
     = (watches s)(l := watches s l @ [\<lparr>blit = b, size_w = n, clause_w = c\<rparr>])"
  by (simp_all add: watch_literal_def)

lemma scan_okD:
  assumes "scan_ok lit ws s"
  shows "assignment_ok s" and "vals s lit < 0" and "db_wf (clauses s)"
    and "watches_wf (clauses s) ((watches s)(lit := ws))"
    and "val_symmetric (vals s)"
  using assms by (simp_all add: scan_ok_def assignment_ok_def)

lemma scan_step_structure:
  assumes ok: "scan_ok lit (kept @ w # rest) s" and cf: "conflict_false s"
    and step: "propagate_watch lit w s = Inr (s', r, brk)"
  shows "scan_ok lit (kept @ kept_of r @ rest) s' \<and> conflict_false s'"
proof -
  note o = scan_okD [OF ok]
  have wok: "watch_ok (clauses s) lit w" using watches_wf_ok [OF o(4), of w lit] by simp
  from step wok o(2) show ?thesis
  proof (cases rule: propagate_watch_summary)
    case (Keep c c' w')
    have f: "vals s' = vals s" "trail s' = trail s" "propagated s' = propagated s"
      "watches s' = watches s" "clauses s' = (clauses s)(clause_w w \<mapsto> c')"
      "conflict s' = conflict s"
      using Keep(3) by simp_all
    have w'ok: "watch_ok ((clauses s)(clause_w w \<mapsto> c')) lit w'"
    proof -
      have base: "size_w w = length (literals c) \<and> watching c lit \<and>
          blit w \<in> set (literals c) \<and> (size_w w = 2 \<longrightarrow> blit w \<noteq> lit)"
        if "size_w w = 2 \<or> \<not> garbage c"
        using wok Keep(1) that by (auto simp: watch_ok_def)
      have sw: "length (literals c') = length (literals c)" "set (literals c') = set (literals c)"
        "watching c' lit = watching c lit" "garbage c' = garbage c"
        using Keep(2) by (simp_all add: same_watching_def)
      have "size_w w' = length (literals c') \<and> watching c' lit \<and>
          blit w' \<in> set (literals c') \<and> (size_w w' = 2 \<longrightarrow> blit w' \<noteq> lit)"
        if h: "size_w w' = 2 \<or> \<not> garbage c'"
      proof -
        have b: "size_w w = length (literals c) \<and> watching c lit \<and>
          blit w \<in> set (literals c) \<and> (size_w w = 2 \<longrightarrow> blit w \<noteq> lit)"
          using base h Keep(6) sw(4) by simp
        from Keep(7) show ?thesis
        proof
          assume "blit w' = blit w"
          then show ?thesis using b sw Keep(6) by simp
        next
          assume "size_w w \<noteq> 2 \<and> blit w' \<in> set (literals c)"
          then show ?thesis using b sw Keep(6) by simp
        qed
      qed
      then show ?thesis unfolding watch_ok_def using Keep(5) by simp
    qed
    have "watches_wf (clauses s') ((watches s')(lit := kept @ w' # rest))"
      unfolding f using watches_wf_replace [OF watches_wf_update [OF o(4) Keep(1,2)] Keep(5) w'ok] .
    moreover have "db_wf (clauses s')" unfolding f using db_wf_update [OF o(3) Keep(1,2)] .
    moreover have "assignment_ok s'" using assignment_ok_fields [OF f(1,2,3)] o(1) by simp
    moreover have "conflict_false s'" unfolding Keep(3)
      using conflict_false_update [OF cf Keep(1,2)] .
    ultimately show ?thesis using o(2) f(1) Keep(4) by (simp add: scan_ok_def kept_of_def)
  next
    case (Assign c c' x)
    define s1 where "s1 = set_clause (clause_w w) c' s"
    note a = inlined_assign_Inr [OF Assign(3) [folded s1_def]]
    have ok1: "assignment_ok s1" "val_symmetric (vals s1)"
      using o(1,5) by (simp_all add: s1_def assignment_ok_def)
    have cf1: "conflict_false s1" unfolding s1_def using conflict_false_update [OF cf Assign(1,2)] .
    have "assignment_ok s'" using assignment_ok_assign [OF ok1(1) Assign(3) [folded s1_def]] .
    moreover have "vals s' lit < 0"
      using assign_false_stays [OF ok1(2) Assign(3) [folded s1_def], of lit] o(2)
      by (simp add: s1_def)
    moreover have "db_wf (clauses s')"
      using db_wf_update [OF o(3) Assign(1,2)] a(8) by (simp add: s1_def)
    moreover have "watches_wf (clauses s') ((watches s')(lit := kept @ w # rest))"
      using watches_wf_update [OF o(4) Assign(1,2)] a(7,8) by (simp add: s1_def)
    moreover have "conflict_false s'"
      unfolding conflict_false_def
    proof (intro allI impI)
      fix j assume "conflict s' = Some j"
      then obtain d where "clauses s1 j = Some d" "all_false (vals s1) d"
        using cf1 a(6) by (auto simp: conflict_false_def)
      then show "\<exists>c. clauses s' j = Some c \<and> all_false (vals s') c"
        using all_false_assign [OF ok1(2) Assign(3) [folded s1_def]] a(8) by auto
    qed
    ultimately show ?thesis using Assign(5) by (simp add: scan_ok_def kept_of_def)
  next
    case (Confl c c')
    have f: "vals s' = vals s" "trail s' = trail s" "propagated s' = propagated s"
      "watches s' = watches s" "clauses s' = (clauses s)(clause_w w \<mapsto> c')"
      "conflict s' = Some (clause_w w)"
      using Confl(3) by simp_all
    have "watches_wf (clauses s') ((watches s')(lit := kept @ w # rest))"
      unfolding f using watches_wf_update [OF o(4) Confl(1,2)] .
    moreover have "db_wf (clauses s')" unfolding f using db_wf_update [OF o(3) Confl(1,2)] .
    moreover have "assignment_ok s'" using assignment_ok_fields [OF f(1,2,3)] o(1) by simp
    moreover have "conflict_false s'"
      using f Confl(4) same_watching_all_false [OF Confl(2)] by (simp add: conflict_false_def)
    ultimately show ?thesis using o(2) f(1) Confl(5) by (simp add: scan_ok_def kept_of_def)
  next
    case (Repl c c' k)
    define c3 where "c3 = c'\<lparr>literals := swap 1 k (literals c')\<rparr>"
    have f: "vals s' = vals s" "trail s' = trail s" "propagated s' = propagated s"
      "watches s' = (watches s)(literals c' ! k := watches s (literals c' ! k) @
          [\<lparr>blit = lit, size_w = size_w w, clause_w = clause_w w\<rparr>])"
      "clauses s' = (clauses s)(clause_w w \<mapsto> c3)"
      "conflict s' = conflict s"
      using Repl(10) by (simp_all add: c3_def)
    note rc = replaced_clause [OF o(3) Repl(1,2,4,5,6,7), folded c3_def]
    have "watches_wf (clauses s') ((watches s')(lit := kept @ rest))"
      unfolding f c3_def
      using watches_wf_repl [OF o(4,3) Repl(1,2,3,4,5,6,7,9)] .
    moreover have "db_wf (clauses s')" unfolding f c3_def
      using db_wf_repl [OF o(3) Repl(1,2,4,5,6,7)] .
    moreover have "assignment_ok s'" using assignment_ok_fields [OF f(1,2,3)] o(1) by simp
    moreover have "conflict_false s'"
      unfolding conflict_false_def
    proof (intro allI impI)
      fix j assume "conflict s' = Some j"
      then obtain d where d: "clauses s j = Some d" "all_false (vals s) d"
        using cf f(6) by (auto simp: conflict_false_def)
      show "\<exists>c. clauses s' j = Some c \<and> all_false (vals s') c"
      proof (cases "j = clause_w w")
        case True
        then have "all_false (vals s) c3" using d Repl(1) rc(6) by (simp add: all_false_def)
        then show ?thesis using True f by simp
      next
        case False
        then show ?thesis using d f by simp
      qed
    qed
    ultimately show ?thesis using o(2) f(1) Repl(11) by (simp add: scan_ok_def kept_of_def)
  qed
qed

lemma propagate_loop_invariant:
  assumes run: "propagate_loop s = Some (Inr s')" and init: "I s"
    and step: "\<And>t t'. I t \<Longrightarrow> conflict t = None \<Longrightarrow> propagated t < length (trail t) \<Longrightarrow>
       propagate_literal t = Inr t' \<Longrightarrow> I t'"
  shows "I s' \<and> (conflict s' \<noteq> None \<or> \<not> propagated s' < length (trail s'))"
proof -
  define P where "P = (\<lambda>s (r :: error + internal). I s \<longrightarrow> (\<forall>s'. r = Inr s' \<longrightarrow>
      I s' \<and> (conflict s' \<noteq> None \<or> \<not> propagated s' < length (trail s'))))"
  have "P s (Inr s')"
  proof (rule propagate_loop.raw_induct [OF _ run])
    fix f :: "internal \<Rightarrow> (error + internal) option" and s :: internal
      and r :: "error + internal"
    assume IH: "\<And>x y. f x = Some y \<Longrightarrow> P x y"
      and eq: "(if conflict s = None \<and> propagated s < length (trail s)
                then case propagate_literal s of Inl e \<Rightarrow> Some (Inl e) | Inr s' \<Rightarrow> f s'
                else Some (Inr s)) = Some r"
    show "P s r"
    proof (cases "conflict s = None \<and> propagated s < length (trail s)")
      case True
      show ?thesis
      proof (cases "propagate_literal s")
        case (Inl e)
        then have "r = Inl e" using eq True by simp
        then show ?thesis by (simp add: P_def)
      next
        case (Inr t)
        then have ft: "f t = Some r" using eq True by simp
        show ?thesis unfolding P_def
        proof (intro impI allI)
          fix s' assume i: "I s" and r: "r = Inr s'"
          have c: "conflict s = None" and p: "propagated s < length (trail s)"
            using True by simp_all
          have it: "I t" by (rule step [OF i c p Inr])
          have "I t \<longrightarrow> (\<forall>s'. r = Inr s' \<longrightarrow>
              I s' \<and> (conflict s' \<noteq> None \<or> \<not> propagated s' < length (trail s')))"
            using IH [OF ft] unfolding P_def .
          from this [rule_format, OF it r]
          show "I s' \<and> (conflict s' \<noteq> None \<or> \<not> propagated s' < length (trail s'))" .
        qed
      qed
    next
      case False
      then have "r = Inr s" using eq by auto
      then show ?thesis using False by (simp add: P_def)
    qed
  qed
  from this [unfolded P_def, rule_format, OF init refl] show ?thesis .
qed

lemma propagate_watches_structure:
  assumes "propagate_watches lit rest kept s = Inr (s', ws')" and "scan_ok lit (kept @ rest) s"
    and "conflict_false s"
  shows "scan_ok lit ws' s' \<and> conflict_false s'"
  using assms
proof (induction rest arbitrary: kept s)
  case Nil
  then show ?case by simp
next
  case (Cons w rest)
  from Cons.prems(1) obtain s1 r brk where st: "propagate_watch lit w s = Inr (s1, r, brk)"
    by (auto split: sum.splits)
  note n = scan_step_structure [OF Cons.prems(2,3) st]
  have k: "(case r of None \<Rightarrow> kept | Some w' \<Rightarrow> kept @ [w']) = kept @ kept_of r"
    by (simp add: kept_of_def split: option.splits)
  show ?case
  proof (cases brk)
    case True
    then have "s' = s1" "ws' = kept @ kept_of r @ rest"
      using Cons.prems(1) st k by (simp_all add: Let_def)
    then show ?thesis using n by simp
  next
    case False
    then have "propagate_watches lit rest (kept @ kept_of r) s1 = Inr (s', ws')"
      using Cons.prems(1) st k by (simp add: Let_def)
    then show ?thesis using Cons.IH [of "kept @ kept_of r" s1] n by simp
  qed
qed

lemma trail_literal_false:
  assumes "assignment_ok s" and "propagated s < length (trail s)"
  shows "vals s (- (trail s ! propagated s)) < 0"
proof -
  have "trail s ! propagated s \<in> set (trail s)" using assms(2) by simp
  then have "vals s (trail s ! propagated s) > 0" using assms(1) by (simp add: assignment_ok_def)
  moreover have "vals s (- (trail s ! propagated s)) = - vals s (trail s ! propagated s)"
    using assms(1) by (simp add: assignment_ok_def val_symmetric_def)
  ultimately show ?thesis by simp
qed

lemma propagate_literal_structure:
  assumes "propagate_literal s = Inr s'" and "structure_ok s" and "conflict_false s"
    and "propagated s < length (trail s)"
  shows "structure_ok s' \<and> conflict_false s'"
proof -
  define lit where "lit = - (trail s ! propagated s)"
  define s1 where "s1 = s\<lparr>propagated := propagated s + 1\<rparr>"
  from assms(1) obtain s2 ws where
    run: "propagate_watches lit (watches s1 lit) [] s1 = Inr (s2, ws)"
    and s': "s' = s2\<lparr>watches := (watches s2)(lit := ws)\<rparr>"
    by (auto simp: propagate_literal_def Let_def lit_def s1_def split: sum.splits)
  have "assignment_ok s1" using assms(2,4) by (simp add: structure_ok_def assignment_ok_def s1_def)
  moreover have "vals s1 lit < 0"
    using trail_literal_false [OF _ assms(4)] assms(2) by (simp add: structure_ok_def lit_def s1_def)
  moreover have "(watches s1)(lit := watches s1 lit) = watches s1" by simp
  ultimately have "scan_ok lit ([] @ watches s1 lit) s1"
    using assms(2) by (simp add: scan_ok_def structure_ok_def s1_def)
  moreover have "conflict_false s1" using assms(3) by (simp add: conflict_false_def s1_def)
  ultimately have "scan_ok lit ws s2 \<and> conflict_false s2"
    using propagate_watches_structure [OF run] by blast
  then show ?thesis
    by (simp add: s' scan_ok_def structure_ok_def assignment_ok_def conflict_false_def)
qed

lemma update_stats_fields [simp]:
  "vals (update_stats b s) = vals s" "trail (update_stats b s) = trail s"
  "propagated (update_stats b s) = propagated s" "conflict (update_stats b s) = conflict s"
  "clauses (update_stats b s) = clauses s" "watches (update_stats b s) = watches s"
  by (simp_all add: update_stats_def Let_def)

lemma propagate_Inr:
  assumes "propagate s = Some (Inr (s', ok))"
  obtains t where "propagate_loop s = Some (Inr t)" "s' = update_stats (propagated s) t"
    "ok = (conflict t = None)" "\<not> unsat s"
  using assms
  by (auto simp: propagate_def Let_def split: if_splits option.splits sum.splits)

section \<open>The watch invariant is preserved\<close>

lemma watchedI:
  "(\<And>i c. cs i = Some c \<Longrightarrow> \<not> garbage c \<Longrightarrow>
      i \<in> clause_w ` set (W (literals c ! 0)) \<and> i \<in> clause_w ` set (W (literals c ! 1))) \<Longrightarrow>
   watched cs W"
  by (simp add: watched_def)

lemma watchedD:
  assumes "watched cs W" and "cs i = Some c" and "\<not> garbage c" and "watching c l"
  shows "i \<in> clause_w ` set (W l)"
  using assms unfolding watched_def watching_def by blast

lemma watchingI: "q < 2 \<Longrightarrow> watching c (literals c ! q)"
  by (cases q) (auto simp: watching_def less_Suc_eq numeral_2_eq_2)

lemma watchingE:
  assumes "watching c l"
  obtains q where "q < 2" "literals c ! q = l"
proof -
  have "(0::nat) < 2" "(1::nat) < 2" by simp_all
  then show thesis using assms that unfolding watching_def by blast
qed

lemma watched_update:
  assumes "watched cs W" and "cs i = Some c" and "same_watching c c'"
  shows "watched (cs(i \<mapsto> c')) W"
proof (rule watchedI)
  fix j d assume d: "(cs(i \<mapsto> c')) j = Some d" "\<not> garbage d"
  show "j \<in> clause_w ` set (W (literals d ! 0)) \<and> j \<in> clause_w ` set (W (literals d ! 1))"
  proof (cases "j = i")
    case True
    then have dc: "d = c'" using d by simp
    have ng: "\<not> garbage c" using d dc assms(3) by (simp add: same_watching_def)
    have w: "watching c (literals c' ! q)" if "q < 2" for q
      using watchingI [OF that, of c'] assms(3) by (simp add: same_watching_def)
    show ?thesis
      using watchedD [OF assms(1,2) ng w [of 0]] watchedD [OF assms(1,2) ng w [of 1]] True dc
      by simp
  next
    case False
    then show ?thesis using d assms(1) by (simp add: watched_def)
  qed
qed

lemma watched_same_ids:
  assumes "watched cs W" and "\<And>l. clause_w ` set (W' l) = clause_w ` set (W l)"
  shows "watched cs W'"
  using assms by (simp add: watched_def)

lemma watched_repl:
  assumes wd: "watched cs (W(lit := kept @ w # rest))"
    and wf: "watches_wf cs (W(lit := kept @ w # rest))" and db: "db_wf cs"
    and c: "cs (clause_w w) = Some c" "\<not> garbage c"
    and sw: "same_watching c c'" and l1: "literals c' ! 1 = lit"
    and k: "2 \<le> k" "k < length (literals c')" and ne: "literals c' ! k \<noteq> lit"
  shows "watched (cs(clause_w w \<mapsto> c'\<lparr>literals := swap 1 k (literals c')\<rparr>))
     ((W(literals c' ! k := W (literals c' ! k) @
          [\<lparr>blit = lit, size_w = size_w w, clause_w = clause_w w\<rparr>]))(lit := kept @ rest))"
    (is "watched ?cs' ?W'")
proof (rule watchedI)
  define i where "i = clause_w w"
  define new where "new = literals c' ! k"
  define c3 where "c3 = c'\<lparr>literals := swap 1 k (literals c')\<rparr>"
  define W0 where "W0 = W(lit := kept @ w # rest)"
  note rc = replaced_clause [OF db c [folded i_def] sw l1 k, folded c3_def new_def]
  have ids: "clause_w ` set (W0 l) - {i} \<subseteq> clause_w ` set (?W' l)" for l
    by (cases "l = lit"; cases "l = literals c' ! k") (auto simp: W0_def i_def)
  fix j d assume d: "?cs' j = Some d" "\<not> garbage d"
  show "j \<in> clause_w ` set (?W' (literals d ! 0)) \<and> j \<in> clause_w ` set (?W' (literals d ! 1))"
  proof (cases "j = i")
    case True
    then have dc: "d = c3" using d by (simp add: i_def c3_def)
    have s: "literals c3 ! 0 = literals c' ! 0" "literals c3 ! 1 = new"
      using swap_1_k [OF k] by (simp_all add: c3_def new_def)
    have "watching c (literals c' ! 0)" using rc(4) by simp
    then have "i \<in> clause_w ` set (W0 (literals c' ! 0))"
      using watchedD [OF wd [folded W0_def] c(1) [folded i_def] c(2)] by simp
    moreover have "literals c' ! 0 \<noteq> lit" "literals c' ! 0 \<noteq> new"
      using rc(2,3) by (simp_all add: new_def)
    ultimately have "i \<in> clause_w ` set (?W' (literals c' ! 0))"
      by (simp add: W0_def new_def)
    moreover have "i \<in> clause_w ` set (?W' new)" using ne by (simp add: new_def i_def)
    ultimately show ?thesis using True dc s by simp
  next
    case False
    then have dj: "cs j = Some d" using d by (simp add: i_def)
    have "j \<in> clause_w ` set (W0 (literals d ! q))" if "q < 2" for q
      using watchedD [OF wd [folded W0_def] dj d(2) watchingI [OF that]] .
    then have "j \<in> clause_w ` set (?W' (literals d ! q))" if "q < 2" for q
      using ids [of "literals d ! q"] False that by blast
    from this [of 0] this [of 1] show ?thesis by simp
  qed
qed

lemma scan_step_watched:
  assumes ok: "scan_ok lit (kept @ w # rest) s"
    and wd: "watched (clauses s) ((watches s)(lit := kept @ w # rest))"
    and step: "propagate_watch lit w s = Inr (s', r, brk)"
  shows "watched (clauses s') ((watches s')(lit := kept @ kept_of r @ rest))"
proof -
  note o = scan_okD [OF ok]
  have wok: "watch_ok (clauses s) lit w" using watches_wf_ok [OF o(4), of w lit] by simp
  from step wok o(2) show ?thesis
  proof (cases rule: propagate_watch_summary)
    case (Keep c c' w')
    have f: "watches s' = watches s" "clauses s' = (clauses s)(clause_w w \<mapsto> c')"
      using Keep(3) by simp_all
    have "watched ((clauses s)(clause_w w \<mapsto> c')) ((watches s)(lit := kept @ w' # rest))"
    proof (rule watched_same_ids [OF watched_update [OF wd Keep(1,2)]])
      fix l
      show "clause_w ` set (((watches s)(lit := kept @ w' # rest)) l)
          = clause_w ` set (((watches s)(lit := kept @ w # rest)) l)"
        using Keep(5) by (cases "l = lit") auto
    qed
    then show ?thesis using f Keep(4) by (simp add: kept_of_def)
  next
    case (Assign c c' x)
    note a = inlined_assign_Inr [OF Assign(3)]
    show ?thesis
      using watched_update [OF wd Assign(1,2)] a(7,8) Assign(5) by (simp add: kept_of_def)
  next
    case (Confl c c')
    show ?thesis
      using watched_update [OF wd Confl(1,2)] Confl(3,5) by (simp add: kept_of_def)
  next
    case (Repl c c' k)
    show ?thesis
      using watched_repl [OF wd o(4,3) Repl(1,2,4,5,6,7,9)] Repl(10,11)
      by (simp add: kept_of_def)
  qed
qed

lemma pending_okI:
  "(\<And>i c q. cs i = Some c \<Longrightarrow> \<not> garbage c \<Longrightarrow> q < 2 \<Longrightarrow> vs (literals c ! q) < 0 \<Longrightarrow>
      sat vs c \<or> - (literals c ! q) \<in> P \<or> (literals c ! q = lit \<and> i \<in> R)) \<Longrightarrow>
   pending_ok vs P cs lit R"
  by (simp add: pending_ok_def)

lemma pending_okD:
  "pending_ok vs P cs lit R \<Longrightarrow> cs i = Some c \<Longrightarrow> \<not> garbage c \<Longrightarrow> q < 2 \<Longrightarrow>
     vs (literals c ! q) < 0 \<Longrightarrow>
     sat vs c \<or> - (literals c ! q) \<in> P \<or> (literals c ! q = lit \<and> i \<in> R)"
  by (simp add: pending_ok_def)

lemma sat_not_all_false: "sat vs c \<Longrightarrow> all_false vs c \<Longrightarrow> False"
  by (fastforce simp: sat_def all_false_def)

lemma sat_assign:
  assumes "sat vs c" and "vs x = 0" and "vs (- x) = 0"
  shows "sat (vs(x := 1, - x := - 1)) c"
proof -
  from assms(1) obtain y where y: "y \<in> set (literals c)" "vs y > 0" by (auto simp: sat_def)
  then have "(vs(x := 1, - x := - 1)) y = vs y" using assms(2,3) by auto
  then have "(vs(x := 1, - x := - 1)) y > 0" using y(2) by simp
  then show ?thesis unfolding sat_def using y(1) by blast
qed

lemma pending_ok_step:
  assumes old: "pending_ok vs P cs lit (insert i R)"
    and cs': "cs' = cs(i \<mapsto> c')"
    and clause_i: "\<And>q. \<not> garbage c' \<Longrightarrow> q < 2 \<Longrightarrow> vs' (literals c' ! q) < 0 \<Longrightarrow>
        sat vs' c' \<or> - (literals c' ! q) \<in> P' \<or> (literals c' ! q = lit \<and> i \<in> R)"
    and mono_sat: "\<And>d. sat vs d \<Longrightarrow> sat vs' d"
    and P: "P \<subseteq> P'"
    and newly: "\<And>y. vs' y < 0 \<Longrightarrow> vs y < 0 \<or> - y \<in> P'"
  shows "pending_ok vs' P' cs' lit R"
proof (rule pending_okI)
  fix j d q assume d: "cs' j = Some d" "\<not> garbage d" "q < 2" "vs' (literals d ! q) < 0"
  show "sat vs' d \<or> - (literals d ! q) \<in> P' \<or> (literals d ! q = lit \<and> j \<in> R)"
  proof (cases "j = i")
    case True
    then have "d = c'" using d(1) cs' by simp
    then show ?thesis using clause_i [of q] d True by simp
  next
    case False
    then have dj: "cs j = Some d" using d(1) cs' by simp
    from newly [OF d(4)] show ?thesis
    proof
      assume "vs (literals d ! q) < 0"
      from pending_okD [OF old dj d(2,3) this] show ?thesis
        using mono_sat P False by blast
    next
      assume "- (literals d ! q) \<in> P'"
      then show ?thesis by simp
    qed
  qed
qed

lemma drop_snoc_set:
  "p \<le> length xs \<Longrightarrow> set (drop p (xs @ [x])) = insert x (set (drop p xs))"
  by simp

lemma scan_step_pending:
  assumes ok: "scan_ok lit (kept @ w # rest) s"
    and pd: "scan_pending lit (w # rest) s"
    and step: "propagate_watch lit w s = Inr (s', r, brk)"
  shows "scan_pending lit rest s'"
proof -
  note o = scan_okD [OF ok]
  define i where "i = clause_w w"
  define R where "R = clause_w ` set rest"
  define p where "p = propagated s"
  have wok: "watch_ok (clauses s) lit w" using watches_wf_ok [OF o(4), of w lit] by simp
  have ple: "p \<le> length (trail s)" using o(1) by (simp add: assignment_ok_def p_def)
  have "distinct (map clause_w (kept @ w # rest))"
    using watches_wf_distinct [OF o(4), of lit] by simp
  then have iR: "i \<notin> R" by (auto simp: i_def R_def)
  have Rw: "clause_w ` set (w # rest) = insert i R" by (simp add: i_def R_def)
  from pd have K: "\<And>j c. conflict s = Some j \<Longrightarrow> clauses s j = Some c \<Longrightarrow> \<not> garbage c \<Longrightarrow>
      p < length (trail s)"
    and alt: "pending_ok (vals s) (set (drop p (trail s))) (clauses s) lit (insert i R)
       \<or> (conflict s \<noteq> None \<and> p < length (trail s))"
    unfolding scan_pending_def Rw p_def by blast+
  from step wok o(2) show ?thesis
  proof (cases rule: propagate_watch_summary)
    case (Keep c c' w')
    have f: "vals s' = vals s" "trail s' = trail s" "propagated s' = p"
      "clauses s' = (clauses s)(i \<mapsto> c')" "conflict s' = conflict s"
      using Keep(3) by (simp_all add: i_def p_def)
    have g: "garbage c' = garbage c" using Keep(2) by (simp add: same_watching_def)
    have "pending_ok (vals s) (set (drop p (trail s))) (clauses s') lit R"
      if old: "pending_ok (vals s) (set (drop p (trail s))) (clauses s) lit (insert i R)"
    proof (rule pending_ok_step [OF old f(4)])
      fix q assume "\<not> garbage c'"
      then have "sat (vals s) c'" using Keep(8) g same_watching_sat [OF Keep(2)] by simp
      then show "sat (vals s) c' \<or> - (literals c' ! q) \<in> set (drop p (trail s))
          \<or> (literals c' ! q = lit \<and> i \<in> R)" by simp
    qed simp_all
    moreover have "p < length (trail s)"
      if "conflict s' = Some j" "clauses s' j = Some d" "\<not> garbage d" for j d
    proof (cases "j = i")
      case True
      then show ?thesis using that K [of j c] Keep(1) f g by (simp add: i_def)
    next
      case False
      then show ?thesis using that K [of j d] f by simp
    qed
    ultimately show ?thesis using alt f unfolding scan_pending_def R_def by auto
  next
    case (Assign c c' x)
    define s1 where "s1 = set_clause (clause_w w) c' s"
    note a = inlined_assign_Inr [OF Assign(3) [folded s1_def]]
    have sym: "val_symmetric (vals s1)" using o(5) by (simp add: s1_def)
    note z = assigned_zero [OF sym a(2)]
    have f: "vals s' = (vals s)(x := 1, - x := - 1)" "trail s' = trail s @ [x]"
      "propagated s' = p" "clauses s' = (clauses s)(i \<mapsto> c')" "conflict s' = conflict s"
      using a by (simp_all add: s1_def i_def p_def)
    have zs: "vals s x = 0" "vals s (- x) = 0" using z by (simp_all add: s1_def)
    have P': "set (drop p (trail s')) = insert x (set (drop p (trail s)))"
      using ple by (simp add: f)
    have g: "garbage c' = garbage c" "set (literals c') = set (literals c)"
      using Assign(2) by (simp_all add: same_watching_def)
    have "pending_ok (vals s') (set (drop p (trail s'))) (clauses s') lit R"
      if old: "pending_ok (vals s) (set (drop p (trail s))) (clauses s) lit (insert i R)"
    proof (rule pending_ok_step [OF old f(4)])
      fix q
      have "vals s' x > 0" using a(1) by (simp add: f)
      then have "sat (vals s') c'" using Assign(4) g by (auto simp: sat_def)
      then show "sat (vals s') c' \<or> - (literals c' ! q) \<in> set (drop p (trail s'))
          \<or> (literals c' ! q = lit \<and> i \<in> R)" by simp
    next
      fix d assume "sat (vals s) d"
      then show "sat (vals s') d" unfolding f using sat_assign zs by blast
    next
      show "set (drop p (trail s)) \<subseteq> set (drop p (trail s'))" using P' by auto
    next
      fix y assume y: "vals s' y < 0"
      show "vals s y < 0 \<or> - y \<in> set (drop p (trail s'))"
      proof (cases "y = - x")
        case True
        then show ?thesis using P' by simp
      next
        case False
        then have "y \<noteq> x" using y a(1) by (auto simp: f)
        then show ?thesis using y False by (simp add: f)
      qed
    qed
    moreover have "p < length (trail s')"
      if "conflict s' = Some j" "clauses s' j = Some d" "\<not> garbage d" for j d
    proof (cases "j = i")
      case True
      then have "p < length (trail s)" using that K [of j c] Assign(1) f g by (simp add: i_def)
      then show ?thesis by (simp add: f)
    next
      case False
      then have "p < length (trail s)" using that K [of j d] f by simp
      then show ?thesis by (simp add: f)
    qed
    moreover have "p < length (trail s')" if "p < length (trail s)" using that by (simp add: f)
    ultimately show ?thesis using alt f(3,5) unfolding scan_pending_def R_def by auto
  next
    case (Confl c c')
    have f: "vals s' = vals s" "trail s' = trail s" "propagated s' = p"
      "clauses s' = (clauses s)(i \<mapsto> c')" "conflict s' = Some i"
      using Confl(3) by (simp_all add: i_def p_def)
    have g: "garbage c' = garbage c" using Confl(2) by (simp add: same_watching_def)
    show ?thesis
    proof (cases "garbage c")
      case True
      have "pending_ok (vals s) (set (drop p (trail s))) (clauses s') lit R"
        if old: "pending_ok (vals s) (set (drop p (trail s))) (clauses s) lit (insert i R)"
        by (rule pending_ok_step [OF old f(4)]) (use True g in simp_all)
      then show ?thesis using alt f True g unfolding scan_pending_def R_def by auto
    next
      case False
      have "p < length (trail s)"
      proof (cases "conflict s \<noteq> None \<and> p < length (trail s)")
        case True
        then show ?thesis by simp
      next
        case no: False
        then have old: "pending_ok (vals s) (set (drop p (trail s))) (clauses s) lit (insert i R)"
          using alt by blast
        have d: "distinct (literals c)" "2 \<le> length (literals c)"
          using o(3) Confl(1) False by (auto simp: db_wf_def)
        have "watching c lit" using wok Confl(1) False by (auto simp: watch_ok_def)
        then obtain q where q: "q < 2" "literals c ! q = lit" by (rule watchingE)
        define q' where "q' = 1 - q"
        have q': "q' < 2" "q' \<noteq> q" "q' < length (literals c)" "q < length (literals c)"
          using q(1) d(2) unfolding q'_def by (linarith | arith)+
        have ne: "literals c ! q' \<noteq> lit"
          using d(1) q' q(2) nth_eq_iff_index_eq [of "literals c" q' q] by auto
        have "literals c ! q' \<in> set (literals c)" using q'(3) by simp
        then have fa: "vals s (literals c ! q') < 0" using Confl(4) by (simp add: all_false_def)
        from pending_okD [OF old Confl(1) [folded i_def] False q'(1) fa]
        have "- (literals c ! q') \<in> set (drop p (trail s))"
          using sat_not_all_false [OF _ Confl(4)] ne by blast
        then have "drop p (trail s) \<noteq> []" by auto
        then show ?thesis by simp
      qed
      then show ?thesis using f unfolding scan_pending_def by simp
    qed
  next
    case (Repl c c' k)
    define c3 where "c3 = c'\<lparr>literals := swap 1 k (literals c')\<rparr>"
    have f: "vals s' = vals s" "trail s' = trail s" "propagated s' = p"
      "clauses s' = (clauses s)(i \<mapsto> c3)" "conflict s' = conflict s"
      using Repl(10) by (simp_all add: c3_def i_def p_def)
    note rc = replaced_clause [OF o(3) Repl(1,2,4,5,6,7), folded c3_def]
    have s3: "literals c3 ! 0 = literals c' ! 0" "literals c3 ! 1 = literals c' ! k"
      using swap_1_k [OF Repl(6,7)] by (simp_all add: c3_def)
    have "pending_ok (vals s) (set (drop p (trail s))) (clauses s') lit R"
      if old: "pending_ok (vals s) (set (drop p (trail s))) (clauses s) lit (insert i R)"
    proof (rule pending_ok_step [OF old f(4)])
      fix q assume q: "q < 2" "vals s (literals c3 ! q) < 0"
      have q0: "q = 0" using q s3(2) Repl(8) by (cases q) (auto simp: less_Suc_eq numeral_2_eq_2)
      have "watching c (literals c' ! 0)" using rc(4) by simp
      then obtain q' where q': "q' < 2" "literals c ! q' = literals c' ! 0" by (rule watchingE)
      have "vals s (literals c ! q') < 0" using q q0 s3(1) q'(2) by simp
      from pending_okD [OF old Repl(1) [folded i_def] Repl(2) q'(1) this]
      have "sat (vals s) c \<or> - (literals c' ! 0) \<in> set (drop p (trail s))"
        using q'(2) rc(3) by auto
      moreover have "sat (vals s) c3 = sat (vals s) c" using rc(6) by (simp add: sat_def)
      ultimately show "sat (vals s) c3 \<or> - (literals c3 ! q) \<in> set (drop p (trail s))
          \<or> (literals c3 ! q = lit \<and> i \<in> R)"
        using q0 s3(1) by auto
    qed simp_all
    moreover have "p < length (trail s)"
      if "conflict s' = Some j" "clauses s' j = Some d" "\<not> garbage d" for j d
    proof (cases "j = i")
      case True
      then show ?thesis using that K [of j c] Repl(1,2) f by (simp add: i_def)
    next
      case False
      then show ?thesis using that K [of j d] f by simp
    qed
    ultimately show ?thesis using alt f unfolding scan_pending_def R_def by auto
  qed
qed

lemma pending_ok_empty: "pending_ok vs P cs lit {} = pending_ok vs P cs 0 {}"
  by (simp add: pending_ok_def)

lemma scan_invariant_step:
  assumes "scan_invariant lit kept (w # rest) s" and "propagate_watch lit w s = Inr (s', r, brk)"
  shows "scan_invariant lit (kept @ kept_of r) rest s'"
proof -
  have a: "scan_ok lit (kept @ w # rest) s" "conflict_false s"
    "watched (clauses s) ((watches s)(lit := kept @ w # rest))" "scan_pending lit (w # rest) s"
    using assms(1) by (simp_all add: scan_invariant_def)
  show ?thesis
    using scan_step_structure [OF a(1,2) assms(2)] scan_step_watched [OF a(1,3) assms(2)]
      scan_step_pending [OF a(1,4) assms(2)]
    by (simp add: scan_invariant_def)
qed

lemma scan_invariant_done:
  assumes "scan_invariant lit kept rest s" and "rest = [] \<or> conflict s \<noteq> None"
  shows "scan_ok lit (kept @ rest) s \<and> conflict_false s \<and>
     watched (clauses s) ((watches s)(lit := kept @ rest)) \<and>
     (conflict s = None \<longrightarrow>
        pending_ok (vals s) (set (drop (propagated s) (trail s))) (clauses s) 0 {}) \<and>
     (\<forall>i c. conflict s = Some i \<longrightarrow> clauses s i = Some c \<longrightarrow> \<not> garbage c \<longrightarrow>
            propagated s < length (trail s))"
proof -
  have p: "scan_pending lit rest s" using assms(1) by (simp add: scan_invariant_def)
  have "pending_ok (vals s) (set (drop (propagated s) (trail s))) (clauses s) 0 {}"
    if "conflict s = None"
  proof -
    have "rest = []" using assms(2) that by simp
    then have "pending_ok (vals s) (set (drop (propagated s) (trail s))) (clauses s) lit {}"
      using p that by (simp add: scan_pending_def)
    then show ?thesis by (simp add: pending_ok_def)
  qed
  then show ?thesis using assms(1) p by (simp add: scan_invariant_def scan_pending_def)
qed

lemma propagate_watches_invariant:
  assumes "propagate_watches lit rest kept s = Inr (s', ws')" and "scan_invariant lit kept rest s"
  shows "scan_ok lit ws' s' \<and> conflict_false s' \<and>
     watched (clauses s') ((watches s')(lit := ws')) \<and>
     (conflict s' = None \<longrightarrow>
        pending_ok (vals s') (set (drop (propagated s') (trail s'))) (clauses s') 0 {}) \<and>
     (\<forall>i c. conflict s' = Some i \<longrightarrow> clauses s' i = Some c \<longrightarrow> \<not> garbage c \<longrightarrow>
            propagated s' < length (trail s'))"
  using assms
proof (induction rest arbitrary: kept s)
  case Nil
  then have e: "s' = s" "ws' = kept" by simp_all
  have "[] = [] \<or> conflict s \<noteq> None" by simp
  from scan_invariant_done [OF Nil.prems(2) this] show ?case
    unfolding e append_Nil2 .
next
  case (Cons w rest)
  from Cons.prems(1) obtain s1 r brk where st: "propagate_watch lit w s = Inr (s1, r, brk)"
    by (auto split: sum.splits)
  note n = scan_invariant_step [OF Cons.prems(2) st]
  have k: "(case r of None \<Rightarrow> kept | Some w' \<Rightarrow> kept @ [w']) = kept @ kept_of r"
    by (simp add: kept_of_def split: option.splits)
  show ?case
  proof (cases brk)
    case True
    then have e: "s' = s1" "ws' = (kept @ kept_of r) @ rest"
      using Cons.prems(1) st k by (simp_all add: Let_def)
    have c: "conflict s1 \<noteq> None" using propagate_watch_break(2) st True by auto
    show ?thesis unfolding e using scan_invariant_done [OF n] c by blast
  next
    case False
    then have "propagate_watches lit rest (kept @ kept_of r) s1 = Inr (s', ws')"
      using Cons.prems(1) st k by (simp add: Let_def)
    then show ?thesis using Cons.IH [of "kept @ kept_of r" s1] n by simp
  qed
qed

lemma propagate_literal_invariant:
  assumes run: "propagate_literal s = Inr s'" and inv: "loop_invariant s"
    and nc: "conflict s = None" and lt: "propagated s < length (trail s)"
  shows "loop_invariant s'"
proof -
  define lit where "lit = - (trail s ! propagated s)"
  define s1 where "s1 = s\<lparr>propagated := propagated s + 1\<rparr>"
  from run obtain s2 ws where
    run2: "propagate_watches lit (watches s1 lit) [] s1 = Inr (s2, ws)"
    and s': "s' = s2\<lparr>watches := (watches s2)(lit := ws)\<rparr>"
    by (auto simp: propagate_literal_def Let_def lit_def s1_def split: sum.splits)
  have i: "structure_ok s" "conflict_false s" "watched (clauses s) (watches s)"
    "pending_ok (vals s) (set (drop (propagated s) (trail s))) (clauses s) 0 {}"
    using inv nc by (simp_all add: loop_invariant_def)
  have ao: "assignment_ok s" using i(1) by (simp add: structure_ok_def)
  have "assignment_ok s1" using ao lt by (simp add: assignment_ok_def s1_def)
  moreover have "vals s1 lit < 0"
    using trail_literal_false [OF ao lt] by (simp add: lit_def s1_def)
  moreover have triv: "(watches s1)(lit := watches s1 lit) = watches s1" by simp
  ultimately have so: "scan_ok lit ([] @ watches s1 lit) s1"
    using i(1) by (simp add: scan_ok_def structure_ok_def s1_def)
  have cf: "conflict_false s1" using i(2) by (simp add: conflict_false_def s1_def)
  have wd: "watched (clauses s1) ((watches s1)(lit := [] @ watches s1 lit))"
    using i(3) by (simp add: s1_def)
  have dr: "set (drop (propagated s) (trail s))
      = insert (trail s ! propagated s) (set (drop (propagated s1) (trail s1)))"
    using lt by (simp add: s1_def Cons_nth_drop_Suc [symmetric])
  have "pending_ok (vals s1) (set (drop (propagated s1) (trail s1))) (clauses s1) lit
      (clause_w ` set (watches s1 lit))"
  proof (rule pending_okI)
    fix j c q assume c: "clauses s1 j = Some c" "\<not> garbage c" "q < 2"
      "vals s1 (literals c ! q) < 0"
    then have c': "clauses s j = Some c" "vals s (literals c ! q) < 0" by (simp_all add: s1_def)
    from pending_okD [OF i(4) c'(1) c(2,3) c'(2)]
    consider "sat (vals s) c" | "- (literals c ! q) = trail s ! propagated s"
      | "- (literals c ! q) \<in> set (drop (propagated s1) (trail s1))"
      using dr by auto
    then show "sat (vals s1) c \<or> - (literals c ! q) \<in> set (drop (propagated s1) (trail s1))
        \<or> (literals c ! q = lit \<and> j \<in> clause_w ` set (watches s1 lit))"
    proof cases
      case 1
      then show ?thesis by (simp add: s1_def)
    next
      case 2
      then have l: "literals c ! q = lit" by (simp add: lit_def)
      have "j \<in> clause_w ` set (watches s lit)"
        using watchedD [OF i(3) c'(1) c(2) watchingI [OF c(3)]] l by simp
      then show ?thesis using l by (simp add: s1_def)
    next
      case 3
      then show ?thesis by simp
    qed
  qed
  then have sp: "scan_pending lit (watches s1 lit) s1"
    using nc by (simp add: scan_pending_def s1_def)
  have "scan_invariant lit [] (watches s1 lit) s1"
    using so cf wd sp by (simp add: scan_invariant_def)
  from propagate_watches_invariant [OF run2 this]
  show ?thesis
    by (simp add: s' loop_invariant_def scan_ok_def structure_ok_def assignment_ok_def
        conflict_false_def)
qed

lemma watch_invariant_loop: "watch_invariant s \<Longrightarrow> conflict s = None \<Longrightarrow> loop_invariant s"
  by (simp add: watch_invariant_def loop_invariant_def conflict_false_def)

lemma propagate_loop_watch_invariant:
  assumes "propagate_loop s = Some (Inr t)" and "watch_invariant s" and "conflict s = None"
  shows "loop_invariant t \<and> (conflict t \<noteq> None \<or> \<not> propagated t < length (trail t))"
proof (rule propagate_loop_invariant [OF assms(1)])
  show "loop_invariant s" using watch_invariant_loop [OF assms(2,3)] .
next
  fix u u' assume "loop_invariant u" "conflict u = None" "propagated u < length (trail u)"
    "propagate_literal u = Inr u'"
  then show "loop_invariant u'" using propagate_literal_invariant by blast
qed

lemma no_unit_at_fixpoint:
  assumes db: "db_wf cs" and po: "pending_ok vs {} cs 0 {}"
    and c: "cs i = Some c" "\<not> garbage c"
  shows "\<not> is_unit vs c"
proof
  assume "is_unit vs c"
  then obtain u where u: "u < length (literals c)" "vs (literals c ! u) = 0"
    "\<And>j. j < length (literals c) \<Longrightarrow> j \<noteq> u \<Longrightarrow> vs (literals c ! j) < 0"
    by (auto simp: is_unit_def)
  have len: "2 \<le> length (literals c)" using db c by (auto simp: db_wf_def)
  define q where "q = (if u = 0 then 1 else 0 :: nat)"
  have q: "q < 2" "q \<noteq> u" "q < length (literals c)" using len by (auto simp: q_def)
  have "vs (literals c ! q) < 0" using u(3) q by simp
  from pending_okD [OF po c q(1) this] have "sat vs c" by simp
  then obtain x where x: "x \<in> set (literals c)" "vs x > 0" by (auto simp: sat_def)
  then obtain j where j: "j < length (literals c)" "literals c ! j = x"
    by (auto simp: in_set_conv_nth)
  show False
  proof (cases "j = u")
    case True
    then show ?thesis using u(2) j x by simp
  next
    case False
    then show ?thesis using u(3) [OF j(1)] j x by simp
  qed
qed

lemma frame_refl [simp]: "frame s s"
  by (simp add: frame_def)

lemma frame_trans: "frame s t \<Longrightarrow> frame t u \<Longrightarrow> frame s u"
  by (auto simp: frame_def)

lemma frame_conflict [simp]: "frame s (t\<lparr>conflict := x\<rparr>) = frame s t"
  by (simp add: frame_def)

lemma frame_assign:
  assumes "inlined_assign x rsn s = Inr s'"
  shows "frame s s'"
proof -
  note a = inlined_assign_Inr [OF assms]
  have "val_symmetric (vals s')" if "val_symmetric (vals s)"
    using val_symmetric_assign [OF that a(1)] a(3) by simp
  then show ?thesis using a by (simp add: frame_def)
qed

lemma pos_in_range_update:
  assumes "pos_in_range cs" and "have_pos c \<Longrightarrow> 2 \<le> pos c \<and> pos c \<le> length (literals c)"
  shows "pos_in_range (cs(i \<mapsto> c))"
  using assms by (auto simp: pos_in_range_def)

lemma frame_set_clause:
  assumes "pos_in_range (clauses s) \<Longrightarrow> have_pos c \<Longrightarrow> 2 \<le> pos c \<and> pos c \<le> length (literals c)"
  shows "frame s (set_clause i c s)"
  using assms pos_in_range_update [of "clauses s" c i] by (auto simp: frame_def)

lemma frame_watch_literal [simp]: "frame s (watch_literal l b c n t) = frame s t"
  by (simp add: frame_def)

lemma normalise_fields [simp]:
  "length (literals (normalise lit c)) = length (literals c)"
  "have_pos (normalise lit c) = have_pos c" "pos (normalise lit c) = pos c"
  by (simp_all add: normalise_def)

lemma propagate_watch_frame:
  assumes "propagate_watch lit w s = Inr (s', r, brk)"
  shows "frame s s'"
  using assms
proof (cases rule: propagate_watch_cases)
  case Blocked
  then show ?thesis by simp
next
  case Binary_Conflict
  then show ?thesis by simp
next
  case Binary_Assign
  then show ?thesis using frame_assign by simp
next
  case (Garbage c0)
  then show ?thesis by simp
next
  case (Long c0)
  define c1 where "c1 = normalise lit c0"
  define s1 where "s1 = set_clause (clause_w w) c1 s"
  have in0: "2 \<le> pos c0 \<and> pos c0 \<le> length (literals c0)"
    if "pos_in_range (clauses s)" "have_pos c0"
    using that Long(3) by (auto simp: pos_in_range_def)
  have f1: "frame s s1" unfolding s1_def c1_def
    by (rule frame_set_clause) (use in0 in simp)
  have upd: "frame s1 (set_clause (clause_w w) c s1)"
    if "have_pos c \<Longrightarrow> 2 \<le> pos c \<and> pos c \<le> length (literals c)" for c
    by (rule frame_set_clause) (use that in simp)
  have fr: "have_pos c2 \<Longrightarrow> 2 \<le> pos c2 \<and> pos c2 \<le> length (literals c2)"
    if "find_replacement (vals s1) (size_w w) c1 = Inr (k, v, c2)" for k v c2
    using find_replacement_pos [OF that] by auto
  from Long(7) [folded c1_def, folded s1_def] have "frame s1 s'"
  proof (cases rule: propagate_long_cases)
    case Satisfied
    then show ?thesis by simp
  next
    case (Found_True k v c2)
    then show ?thesis using upd [OF fr [OF Found_True(2)]] by simp
  next
    case (Replace k v c2)
    have "have_pos (c2\<lparr>literals := swap 1 k (literals c1)\<rparr>) \<Longrightarrow>
        2 \<le> pos (c2\<lparr>literals := swap 1 k (literals c1)\<rparr>) \<and>
        pos (c2\<lparr>literals := swap 1 k (literals c1)\<rparr>)
          \<le> length (literals (c2\<lparr>literals := swap 1 k (literals c1)\<rparr>))"
      using fr [OF Replace(2)] find_replacement_pos [OF Replace(2)] by simp
    from upd [OF this] show ?thesis using Replace(5) by simp
  next
    case (Unit k v c2)
    show ?thesis
      using frame_trans [OF upd [OF fr [OF Unit(2)]] frame_assign [OF Unit(4)]] by simp
  next
    case (Conflict k v c2)
    then show ?thesis using upd [OF fr [OF Conflict(2)]] by simp
  qed
  then show ?thesis using frame_trans [OF f1] by simp
qed

lemma propagate_watches_frame:
  "propagate_watches lit rest kept s = Inr (s', ws') \<Longrightarrow> frame s s'"
proof (induction rest arbitrary: kept s)
  case Nil
  then show ?case by simp
next
  case (Cons w rest)
  from Cons.prems obtain s1 r brk where st: "propagate_watch lit w s = Inr (s1, r, brk)"
    by (auto split: sum.splits)
  show ?case
  proof (cases brk)
    case True
    then show ?thesis using Cons.prems st propagate_watch_frame [OF st] by (simp add: Let_def)
  next
    case False
    then have "propagate_watches lit rest (case r of None \<Rightarrow> kept | Some w' \<Rightarrow> kept @ [w']) s1
        = Inr (s', ws')"
      using Cons.prems st by (simp add: Let_def)
    from Cons.IH [OF this] show ?thesis using frame_trans [OF propagate_watch_frame [OF st]] by simp
  qed
qed

text \<open>One round of the outer loop.\<close>

lemma propagate_literal_frame:
  assumes "propagate_literal s = Inr s'" and "propagated s < length (trail s)"
  shows "prefix (trail s) (trail s') \<and> propagated s' = propagated s + 1 \<and>
     propagated s' \<le> length (trail s') \<and>
     (val_symmetric (vals s) \<longrightarrow> val_symmetric (vals s')) \<and>
     (pos_in_range (clauses s) \<longrightarrow> pos_in_range (clauses s'))"
proof -
  define lit where "lit = - (trail s ! propagated s)"
  define s1 where "s1 = s\<lparr>propagated := propagated s + 1\<rparr>"
  from assms(1) obtain s2 ws where
    run: "propagate_watches lit (watches s1 lit) [] s1 = Inr (s2, ws)"
    and s': "s' = s2\<lparr>watches := (watches s2)(lit := ws)\<rparr>"
    by (auto simp: propagate_literal_def Let_def lit_def s1_def split: sum.splits)
  have f: "frame s1 s2" using propagate_watches_frame [OF run] .
  then have "length (trail s1) \<le> length (trail s2)" by (auto simp: frame_def prefix_def)
  then show ?thesis using f assms(2) by (simp add: s' s1_def frame_def)
qed

lemma propagate_loop_frame:
  assumes "propagate_loop s = Some (Inr t)" and "propagated s \<le> length (trail s)"
  shows "call_frame s t \<and> (conflict t \<noteq> None \<or> \<not> propagated t < length (trail t))"
proof (rule propagate_loop_invariant [OF assms(1)])
  show "call_frame s s" using assms(2) by (simp add: call_frame_def)
next
  fix u u' assume u: "call_frame s u" "propagated u < length (trail u)"
    "propagate_literal u = Inr u'"
  from propagate_literal_frame [OF u(3,2)] u(1) show "call_frame s u'"
    by (auto simp: call_frame_def)
qed

lemma propagate_loop_symmetric:
  assumes "propagate_loop s = Some (Inr t)" and "val_symmetric (vals s)"
  shows "val_symmetric (vals t)"
proof -
  have "val_symmetric (vals t) \<and> (conflict t \<noteq> None \<or> \<not> propagated t < length (trail t))"
  proof (rule propagate_loop_invariant [OF assms(1)])
    show "val_symmetric (vals s)" by (rule assms(2))
  next
    fix u u' assume "val_symmetric (vals u)" "propagated u < length (trail u)"
      "propagate_literal u = Inr u'"
    then show "val_symmetric (vals u')" using propagate_literal_frame by blast
  qed
  then show ?thesis by simp
qed

lemma propagate_loop_pos:
  assumes "propagate_loop s = Some (Inr t)" and "pos_in_range (clauses s)"
  shows "pos_in_range (clauses t)"
proof -
  have "pos_in_range (clauses t) \<and> (conflict t \<noteq> None \<or> \<not> propagated t < length (trail t))"
  proof (rule propagate_loop_invariant [OF assms(1)])
    show "pos_in_range (clauses s)" by (rule assms(2))
  next
    fix u u' assume "pos_in_range (clauses u)" "propagated u < length (trail u)"
      "propagate_literal u = Inr u'"
    then show "pos_in_range (clauses u')" using propagate_literal_frame by blast
  qed
  then show ?thesis by simp
qed

section \<open>A conflict during the scan of a watch list\<close>

lemma normalise_watched:
  assumes "watching c lit" and "2 \<le> length (literals c)"
  shows "literals (normalise lit c) ! 1 = lit"
proof -
  have a: "0 < length (literals c)" "1 < length (literals c)" using assms(2) by auto
  show ?thesis using assms(1) a by (auto simp: normalise_def watching_def nth_swap)
qed

text \<open>
  A search that finds every literal false stops where it started and leaves the saved
  position as it was.
\<close>

lemma find_replacement_none_pos:
  assumes "find_replacement vs n c = Inr (k, v, c')" and "v < 0"
  shows "c' = c"
proof (cases "have_pos c")
  case True
  have n: "n = length (literals c)" using find_replacement_Inr [OF assms(1)] by simp
  have p: "pos c \<le> n" using assms(1) n True
    by (auto simp: find_replacement_def Let_def split: if_splits)
  obtain k1 v1 where s1: "scan vs (literals c) (pos c) n (- 1) = (k1, v1)" by fastforce
  have neg: "v1 < 0"
    using assms(1,2) n True p s1
    by (auto simp: find_replacement_def Let_def split: if_splits)
  obtain k2 v2 where s2: "scan vs (literals c) 2 (pos c) v1 = (k2, v2)" by fastforce
  have kv: "k = k2" "v = v2" and m: "2 \<le> pos c"
    using assms(1) n True p s1 neg s2
    by (auto simp: find_replacement_def Let_def split: if_splits)
  have "\<not> k2 < pos c" using scan_found [of vs "literals c" 2 "pos c" v1] s2 kv assms(2) by auto
  moreover have "k2 \<le> pos c" using scan_bounds [of 2 "pos c" vs "literals c" v1] m s2 by simp
  ultimately have "k = pos c" using kv by simp
  then show ?thesis using find_replacement_Inr(4) [OF assms(1)] True by simp
next
  case False
  then show ?thesis using find_replacement_Inr(4) [OF assms(1)] by simp
qed

text \<open>
  A long watch on a clause that is not garbage and has every literal false: the search
  finds no replacement, the other watched literal is false, and the branch of line 217
  is taken. The clause is stored back normalised, the conflict is set and the scan is
  left.
\<close>

lemma long_conflict_breaks:
  assumes wok: "watch_ok (clauses s) lit w" and nb: "size_w w \<noteq> 2"
    and c: "clauses s (clause_w w) = Some c" and ng: "\<not> garbage c"
    and two: "2 \<le> length (literals c)"
    and ps: "have_pos c \<longrightarrow> 2 \<le> pos c \<and> pos c \<le> length (literals c)"
    and af: "all_false (vals s) c"
  shows "propagate_watch lit w s
     = Inr ((set_clause (clause_w w) (normalise lit c) s)\<lparr>conflict := Some (clause_w w)\<rparr>,
            Some w, True)"
proof -
  from wok c ng have n: "size_w w = length (literals c)" and wl: "watching c lit"
    and bl: "blit w \<in> set (literals c)"
    by (auto simp: watch_ok_def)
  define c1 where "c1 = normalise lit c"
  define s1 where "s1 = set_clause (clause_w w) c1 s"
  have sw: "same_watching c c1" unfolding c1_def using two by (rule same_watching_normalise)
  have f: "vals s x < 0" if "x \<in> set (literals c)" for x
    using af that by (simp add: all_false_def)
  have b: "\<not> val s (blit w) > 0" using f [OF bl] by (simp add: val_def)
  have l1: "literals c1 ! 1 = lit" unfolding c1_def using wl two by (rule normalise_watched)
  have len: "length (literals c1) = length (literals c)" by (simp add: c1_def)
  have f1: "vals s1 (literals c1 ! j) < 0" if "j < length (literals c1)" for j
  proof -
    have "literals c1 ! j \<in> set (literals c1)" using that by simp
    then have "literals c1 ! j \<in> set (literals c)" using sw by (simp add: same_watching_def)
    then show ?thesis using f by (simp add: s1_def)
  qed
  have "0 < length (literals c1)" using two len by auto
  then have u: "val s1 (literals c1 ! 0) < 0" using f1 [of 0] by (simp add: val_def)
  have "size_w w = length (literals c1)" "2 \<le> size_w w"
    "have_pos c1 \<longrightarrow> 2 \<le> pos c1 \<and> pos c1 \<le> size_w w"
    using n two ps len by (simp_all add: c1_def)
  from find_replacement_total [OF this, of "vals s1"]
  obtain k v c2 where fr: "find_replacement (vals s1) (size_w w) c1 = Inr (k, v, c2)"
    by blast
  have v: "v < 0"
  proof (rule ccontr)
    assume "\<not> v < 0"
    then have "0 \<le> v" by simp
    from find_replacement_found [OF fr this]
    have "k < length (literals c1)" "v = vals s1 (literals c1 ! k)" by simp_all
    then show False using f1 [of k] \<open>0 \<le> v\<close> by simp
  qed
  have c2: "c2 = c1" using fr v by (rule find_replacement_none_pos)
  have long: "propagate_long lit w c1 s1
      = Inr ((set_clause (clause_w w) c2 s1)\<lparr>conflict := Some (clause_w w)\<rparr>, Some w, True)"
    using u fr v by (simp add: propagate_long_def Let_def)
  have "propagate_watch lit w s
      = Inr ((set_clause (clause_w w) c2 s)\<lparr>conflict := Some (clause_w w)\<rparr>, Some w, True)"
    using b nb c ng two l1 long
    by (simp add: propagate_watch_def Let_def c1_def [symmetric] s1_def [symmetric])
      (simp add: s1_def)
  then show ?thesis by (simp add: c2 c1_def)
qed

text \<open>
  C1, as the claim states it, fails. In \<open>two_binaries\<close> the list of literal 1 holds
  the watches of \<open>(1, 2)\<close> and \<open>(1, 3)\<close>. The first has a false blocking literal and
  sets the conflict; the scan goes on to the second, whose blocking literal 3 is
  unassigned, and assigns it: an assignment made after the conflict marker was set.
\<close>

theorem binary_conflict_continues_counterexample:
  "propagate_watch 1 (watch_of 2 2 0) (two_binaries\<lparr>propagated := 1\<rparr>)
     = Inr (two_binaries\<lparr>propagated := 1, conflict := Some 0\<rparr>, Some (watch_of 2 2 0), False)
   \<and> (case propagate_watch 1 (watch_of 3 2 1) (two_binaries\<lparr>propagated := 1, conflict := Some 0\<rparr>) of
        Inr (s', r, brk) \<Rightarrow> trail s' = [- 1, - 2, 3] \<and> conflict s' = Some 0 | Inl e \<Rightarrow> False)
   \<and> (case propagate two_binaries of
        Some (Inr (s', ok)) \<Rightarrow> \<not> ok \<and> trail s' = [- 1, - 2, 3] \<and> conflict s' = Some 0
          \<and> reason (vtab s' 3) = Some 1
      | _ \<Rightarrow> False)"
  by (simp add: two_binaries_def example_defs eval_defs)

text \<open>
  C1, amended. A binary watch whose blocking literal is false records its clause as the
  conflict and the scan of the list goes on with the next watch, in the state with the
  conflict set. A long watch whose clause is not garbage and has all its literals false
  leaves the scan at once: it returns by \<^verbatim>\<open>break\<close> with its clause as the conflict,
  nothing has changed but the swap of line 146 in that clause, and the watches not yet
  read are copied down behind it unchanged. Conversely a watch that leaves the scan by
  \<^verbatim>\<open>break\<close> is a long one, its clause is the conflict and no assignment was made
  for it. Once a conflict is set the outer loop takes no further literal from the trail.
\<close>

theorem conflict_stops_propagation:
  "(size_w w = 2 \<and> val s (blit w) < 0 \<longrightarrow>
      propagate_watches lit (w # rest) kept s
        = propagate_watches lit rest (kept @ [w]) (s\<lparr>conflict := Some (clause_w w)\<rparr>))
   \<and> (watch_ok (clauses s) lit w \<and> size_w w \<noteq> 2 \<and> clauses s (clause_w w) = Some c
        \<and> \<not> garbage c \<and> 2 \<le> length (literals c)
        \<and> (have_pos c \<longrightarrow> 2 \<le> pos c \<and> pos c \<le> length (literals c))
        \<and> all_false (vals s) c \<longrightarrow>
        propagate_watch lit w s
          = Inr ((set_clause (clause_w w) (normalise lit c) s)\<lparr>conflict := Some (clause_w w)\<rparr>,
                 Some w, True)
        \<and> propagate_watches lit (w # rest) kept s
          = Inr ((set_clause (clause_w w) (normalise lit c) s)\<lparr>conflict := Some (clause_w w)\<rparr>,
                 kept @ w # rest))
   \<and> (propagate_watch lit w s = Inr (s', r, True) \<longrightarrow>
        size_w w \<noteq> 2 \<and> conflict s' = Some (clause_w w) \<and> trail s' = trail s
        \<and> vals s' = vals s
        \<and> propagate_watches lit (w # rest) kept s = Inr (s', kept @ w # rest))
   \<and> (conflict s \<noteq> None \<longrightarrow> propagate_loop s = Some (Inr s))"
proof (intro conjI impI)
  assume "size_w w = 2 \<and> val s (blit w) < 0"
  then show "propagate_watches lit (w # rest) kept s
        = propagate_watches lit rest (kept @ [w]) (s\<lparr>conflict := Some (clause_w w)\<rparr>)"
    using propagate_watches_binary_conflict by blast
next
  assume a: "watch_ok (clauses s) lit w \<and> size_w w \<noteq> 2 \<and> clauses s (clause_w w) = Some c
        \<and> \<not> garbage c \<and> 2 \<le> length (literals c)
        \<and> (have_pos c \<longrightarrow> 2 \<le> pos c \<and> pos c \<le> length (literals c))
        \<and> all_false (vals s) c"
  then have b: "propagate_watch lit w s
     = Inr ((set_clause (clause_w w) (normalise lit c) s)\<lparr>conflict := Some (clause_w w)\<rparr>,
            Some w, True)"
    using long_conflict_breaks [of s lit w c] by blast
  then show "propagate_watch lit w s
     = Inr ((set_clause (clause_w w) (normalise lit c) s)\<lparr>conflict := Some (clause_w w)\<rparr>,
            Some w, True)" .
  show "propagate_watches lit (w # rest) kept s
     = Inr ((set_clause (clause_w w) (normalise lit c) s)\<lparr>conflict := Some (clause_w w)\<rparr>,
            kept @ w # rest)"
    using b by simp
next
  assume h: "propagate_watch lit w s = Inr (s', r, True)"
  note b = propagate_watch_break [OF h]
  show "size_w w \<noteq> 2" "conflict s' = Some (clause_w w)" "trail s' = trail s" "vals s' = vals s"
    using b by auto
  show "propagate_watches lit (w # rest) kept s = Inr (s', kept @ w # rest)"
    using h b(1) by simp
next
  assume "conflict s \<noteq> None"
  then show "propagate_loop s = Some (Inr s)" by (rule propagate_loop_conflict)
qed

theorem conflict_stops_propagation_witness:
  "size_w (watch_of 2 2 0) = 2 \<and> val two_binaries (blit (watch_of 2 2 0)) < 0
   \<and> propagate_watches 1 [watch_of 2 2 0] [] two_binaries
       = propagate_watches 1 [] [watch_of 2 2 0] (two_binaries\<lparr>conflict := Some 0\<rparr>)
   \<and> watch_ok (clauses three_false) 2 (watch_of 1 3 0) \<and> size_w (watch_of 1 3 0) \<noteq> 2
   \<and> clauses three_false (clause_w (watch_of 1 3 0)) = Some (short_clause [1, 2, 3])
   \<and> \<not> garbage (short_clause [1, 2, 3]) \<and> 2 \<le> length (literals (short_clause [1, 2, 3]))
   \<and> \<not> have_pos (short_clause [1, 2, 3])
   \<and> all_false (vals three_false) (short_clause [1, 2, 3])
   \<and> propagate_watch 2 (watch_of 1 3 0) three_false
       = Inr (three_false\<lparr>conflict := Some 0\<rparr>, Some (watch_of 1 3 0), True)
   \<and> propagate_watches 2 [watch_of 1 3 0, watch_of 7 2 5] [] three_false
       = Inr (three_false\<lparr>conflict := Some 0\<rparr>, [watch_of 1 3 0, watch_of 7 2 5])
   \<and> size_w (watch_of 1 3 0) \<noteq> 2 \<and> conflict (three_false\<lparr>conflict := Some 0\<rparr>) = Some 0
   \<and> trail (three_false\<lparr>conflict := Some 0\<rparr>) = trail three_false
   \<and> propagate_loop (two_binaries\<lparr>conflict := Some 0\<rparr>)
       = Some (Inr (two_binaries\<lparr>conflict := Some 0\<rparr>))"
proof -
  note th = conflict_stops_propagation
  have h1: "size_w (watch_of 2 2 0) = 2" "val two_binaries (blit (watch_of 2 2 0)) < 0"
    by (simp_all add: two_binaries_def example_defs val_def)
  have 1: "propagate_watches 1 [watch_of 2 2 0] [] two_binaries
       = propagate_watches 1 [] [watch_of 2 2 0] (two_binaries\<lparr>conflict := Some 0\<rparr>)"
    using th [where w = "watch_of 2 2 0" and s = two_binaries and lit = 1 and rest = "[]"
        and kept = "[]", THEN conjunct1, rule_format, OF conjI [OF h1]]
    by (simp add: watch_of_def)
  have h2: "watch_ok (clauses three_false) 2 (watch_of 1 3 0)"
    "size_w (watch_of 1 3 0) \<noteq> 2"
    "clauses three_false (clause_w (watch_of 1 3 0)) = Some (short_clause [1, 2, 3])"
    "\<not> garbage (short_clause [1, 2, 3])" "2 \<le> length (literals (short_clause [1, 2, 3]))"
    "\<not> have_pos (short_clause [1, 2, 3])"
    "all_false (vals three_false) (short_clause [1, 2, 3])"
    by (simp_all add: three_false_def example_defs watch_ok_def watching_def all_false_def)
  have h2': "watch_ok (clauses three_false) 2 (watch_of 1 3 0) \<and> size_w (watch_of 1 3 0) \<noteq> 2
      \<and> clauses three_false (clause_w (watch_of 1 3 0)) = Some (short_clause [1, 2, 3])
      \<and> \<not> garbage (short_clause [1, 2, 3]) \<and> 2 \<le> length (literals (short_clause [1, 2, 3]))
      \<and> (have_pos (short_clause [1, 2, 3]) \<longrightarrow> 2 \<le> pos (short_clause [1, 2, 3])
            \<and> pos (short_clause [1, 2, 3]) \<le> length (literals (short_clause [1, 2, 3])))
      \<and> all_false (vals three_false) (short_clause [1, 2, 3])"
    using h2 by simp
  have nm: "set_clause (clause_w (watch_of 1 3 0)) (normalise 2 (short_clause [1, 2, 3])) three_false
      = three_false"
    by (simp add: three_false_def example_defs normalise_def set_clause_def)
  have 2: "propagate_watch 2 (watch_of 1 3 0) three_false
       = Inr (three_false\<lparr>conflict := Some 0\<rparr>, Some (watch_of 1 3 0), True)"
    "propagate_watches 2 [watch_of 1 3 0, watch_of 7 2 5] [] three_false
       = Inr (three_false\<lparr>conflict := Some 0\<rparr>, [watch_of 1 3 0, watch_of 7 2 5])"
    using th [where w = "watch_of 1 3 0" and s = three_false and lit = 2
        and rest = "[watch_of 7 2 5]" and kept = "[]" and c = "short_clause [1, 2, 3]",
        THEN conjunct2, THEN conjunct1, rule_format, OF h2']
    unfolding nm by (simp_all add: watch_of_def)
  have 3: "size_w (watch_of 1 3 0) \<noteq> 2" "conflict (three_false\<lparr>conflict := Some 0\<rparr>) = Some 0"
    "trail (three_false\<lparr>conflict := Some 0\<rparr>) = trail three_false"
    using th [where w = "watch_of 1 3 0" and s = three_false and lit = 2
        and rest = "[watch_of 7 2 5]" and kept = "[]" and s' = "three_false\<lparr>conflict := Some 0\<rparr>"
        and r = "Some (watch_of 1 3 0)",
        THEN conjunct2, THEN conjunct2, THEN conjunct1, rule_format, OF 2(1)]
    by (simp_all add: watch_of_def)
  have c: "conflict (two_binaries\<lparr>conflict := Some 0\<rparr>) \<noteq> None" by simp
  have 4: "propagate_loop (two_binaries\<lparr>conflict := Some 0\<rparr>)
       = Some (Inr (two_binaries\<lparr>conflict := Some 0\<rparr>))"
    using th [where s = "two_binaries\<lparr>conflict := Some 0\<rparr>",
        THEN conjunct2, THEN conjunct2, THEN conjunct2, rule_format, OF c] .
  from h1 1 h2 2 3 4 show ?thesis by (intro conjI) assumption+
qed

section \<open>Conflict correctness\<close>

text \<open>
  C3. Entered with no conflict set and a well-formed watch structure, a call of
  \<open>propagate\<close> that returns failure leaves the conflict marker on a clause of the
  arena all of whose literals are false in the value store at return.
\<close>

theorem conflict_clause_false:
  assumes "structure_ok s" and "conflict s = None" and "propagate s = Some (Inr (s', False))"
  shows "\<exists>i c. conflict s' = Some i \<and> clauses s' i = Some c \<and> all_false (vals s') c"
proof -
  from assms(3) obtain t where t: "propagate_loop s = Some (Inr t)"
    "s' = update_stats (propagated s) t" "conflict t \<noteq> None"
    by (rule propagate_Inr) simp
  have "conflict_false s" using assms(2) by (simp add: conflict_false_def)
  then have "structure_ok s \<and> conflict_false s" using assms(1) by simp
  then have "(structure_ok t \<and> conflict_false t)
      \<and> (conflict t \<noteq> None \<or> \<not> propagated t < length (trail t))"
  proof (rule propagate_loop_invariant [OF t(1)])
    fix u u' assume "structure_ok u \<and> conflict_false u" "propagated u < length (trail u)"
      "propagate_literal u = Inr u'"
    then show "structure_ok u' \<and> conflict_false u'"
      using propagate_literal_structure [of u u'] by simp
  qed
  then obtain i c where "conflict t = Some i" "clauses t i = Some c" "all_false (vals t) c"
    using t(3) unfolding conflict_false_def by blast
  then show ?thesis using t(2) by simp
qed

lemma two_binaries_structure_ok: "structure_ok two_binaries"
  unfolding structure_ok_def assignment_ok_def db_wf_def watches_wf_def
proof (intro conjI)
  show "val_symmetric (vals two_binaries)"
    by (simp add: two_binaries_def val_symmetric_def)
  show "\<forall>l\<in>set (trail two_binaries). 0 < vals two_binaries l"
    by (simp add: two_binaries_def)
  show "propagated two_binaries \<le> length (trail two_binaries)"
    by (simp add: two_binaries_def example_defs)
  show "\<forall>i c. clauses two_binaries i = Some c \<longrightarrow> \<not> garbage c \<longrightarrow>
      distinct (literals c) \<and> 2 \<le> length (literals c)"
    by (auto simp: two_binaries_def example_defs split: if_splits)
  show "\<forall>l. distinct (map clause_w (watches two_binaries l)) \<and>
        (\<forall>w\<in>set (watches two_binaries l). watch_ok (clauses two_binaries) l w)"
    by (auto simp: two_binaries_def example_defs watch_ok_def watching_def)
qed

lemma two_binaries_run:
  "case propagate two_binaries of
     Some (Inr (s', ok)) \<Rightarrow> \<not> ok \<and> conflict s' = Some 0
       \<and> clauses s' 0 = Some (short_clause [1, 2]) \<and> vals s' 1 = - 1 \<and> vals s' 2 = - 1
   | _ \<Rightarrow> False"
  by (simp add: two_binaries_def example_defs eval_defs)

theorem conflict_clause_false_witness:
  "structure_ok two_binaries \<and> conflict two_binaries = None
   \<and> (\<exists>s'. propagate two_binaries = Some (Inr (s', False))
        \<and> (\<exists>i c. conflict s' = Some i \<and> clauses s' i = Some c \<and> all_false (vals s') c))"
proof -
  have c: "conflict two_binaries = None" by (simp add: two_binaries_def example_defs)
  obtain s' where r: "propagate two_binaries = Some (Inr (s', False))"
    using two_binaries_run by (auto split: option.splits sum.splits)
  show ?thesis
    using two_binaries_structure_ok c r
      conflict_clause_false [OF two_binaries_structure_ok c r] by blast
qed

section \<open>Completeness\<close>

text \<open>
  C2. If the watch invariant holds on entry and no conflict is set, then after a call of
  \<open>propagate\<close> that returns success no clause of the arena that is not garbage has
  exactly one unassigned literal and all its other literals false. The invariant on
  entry is I3 as the loop keeps it: a false watched literal is allowed while its
  assignment still waits on the trail; the wording of I3 in the specification (both
  watched literals unassigned, or a true blocking literal) is the case in which nothing
  waits.
\<close>

theorem no_missed_unit:
  assumes "watch_invariant s" and "conflict s = None" and "propagate s = Some (Inr (s', True))"
    and "clauses s' i = Some c" and "\<not> garbage c"
  shows "\<not> is_unit (vals s') c"
proof -
  from assms(3) obtain t where t: "propagate_loop s = Some (Inr t)"
    "s' = update_stats (propagated s) t" "conflict t = None"
    by (rule propagate_Inr) simp
  from propagate_loop_watch_invariant [OF t(1) assms(1,2)]
  have li: "loop_invariant t" and ex: "\<not> propagated t < length (trail t)" using t(3) by auto
  have "drop (propagated t) (trail t) = []" using ex by simp
  then have "pending_ok (vals t) {} (clauses t) 0 {}"
    using li t(3) by (simp add: loop_invariant_def)
  moreover have "db_wf (clauses t)" using li by (simp add: loop_invariant_def structure_ok_def)
  ultimately show ?thesis using no_unit_at_fixpoint [of "clauses t" "vals t" i c] assms(4,5) t(2)
    by simp
qed

lemma watch_invariantI:
  assumes "val_symmetric (vals s)" and "\<forall>l\<in>set (trail s). 0 < vals s l"
    and "propagated s \<le> length (trail s)" and "db_wf (clauses s)"
    and "\<And>l. distinct (map clause_w (watches s l))"
    and "\<And>l w. w \<in> set (watches s l) \<Longrightarrow> watch_ok (clauses s) l w"
    and "watched (clauses s) (watches s)"
    and "pending_ok (vals s) (set (drop (propagated s) (trail s))) (clauses s) 0 {}"
  shows "watch_invariant s"
  using assms by (simp add: watch_invariant_def structure_ok_def assignment_ok_def watches_wf_def)

lemma long_unit_invariant: "watch_invariant long_unit"
proof (rule watch_invariantI)
  show "val_symmetric (vals long_unit)" by (simp add: long_unit_def val_symmetric_def)
  show "\<forall>l\<in>set (trail long_unit). 0 < vals long_unit l" by (simp add: long_unit_def)
  show "propagated long_unit \<le> length (trail long_unit)" by (simp add: long_unit_def example_defs)
  show "db_wf (clauses long_unit)"
    by (auto simp: db_wf_def long_unit_def example_defs split: if_splits)
  show "distinct (map clause_w (watches long_unit l))" for l
    by (simp add: long_unit_def example_defs)
  show "watch_ok (clauses long_unit) l w" if "w \<in> set (watches long_unit l)" for l w
    using that by (auto simp: long_unit_def example_defs watch_ok_def watching_def split: if_splits)
  show "watched (clauses long_unit) (watches long_unit)"
    by (auto simp: watched_def long_unit_def example_defs split: if_splits)
  show "pending_ok (vals long_unit) (set (drop (propagated long_unit) (trail long_unit)))
      (clauses long_unit) 0 {}"
    by (auto simp: pending_ok_def long_unit_def example_defs less_Suc_eq numeral_2_eq_2
        split: if_splits)
qed

lemma long_unit_run:
  "case propagate long_unit of
     Some (Inr (s', ok)) \<Rightarrow> ok \<and> trail s' = [- 3, - 2, 1] \<and> propagated s' = 3
       \<and> clauses s' 0 = Some (short_clause [1, 2, 3]) \<and> vals s' 1 = 1
       \<and> reason (vtab s' 1) = Some 0
   | _ \<Rightarrow> False"
  by (simp add: long_unit_def example_defs eval_defs)

theorem no_missed_unit_witness:
  "watch_invariant long_unit \<and> conflict long_unit = None
   \<and> (\<exists>s'. propagate long_unit = Some (Inr (s', True))
        \<and> clauses s' 0 = Some (short_clause [1, 2, 3])
        \<and> \<not> garbage (short_clause [1, 2, 3])
        \<and> \<not> is_unit (vals s') (short_clause [1, 2, 3]))"
proof -
  have c: "conflict long_unit = None" by (simp add: long_unit_def example_defs)
  obtain s' where r: "propagate long_unit = Some (Inr (s', True))"
    and cl: "clauses s' 0 = Some (short_clause [1, 2, 3])"
    using long_unit_run by (auto split: option.splits sum.splits)
  have g: "\<not> garbage (short_clause [1, 2, 3])" by (simp add: short_clause_def)
  show ?thesis
    using long_unit_invariant c r cl g no_missed_unit [OF long_unit_invariant c r cl g] by blast
qed

section \<open>Trail and cursor\<close>

lemma propagate_call_frame:
  assumes "propagate s = Some (Inr (s', ok))" and "propagated s \<le> length (trail s)"
  shows "call_frame s s' \<and> (ok \<longrightarrow> propagated s' = length (trail s'))"
proof -
  from assms(1) obtain t where t: "propagate_loop s = Some (Inr t)"
    "s' = update_stats (propagated s) t" "ok = (conflict t = None)"
    by (rule propagate_Inr)
  from propagate_loop_frame [OF t(1) assms(2)]
  have cf: "call_frame s t" and ex: "conflict t \<noteq> None \<or> \<not> propagated t < length (trail t)"
    by simp_all
  have "propagated t = length (trail t)" if ok
    using that t(3) ex cf by (simp add: call_frame_def)
  then show ?thesis using cf t(2) by (simp add: call_frame_def)
qed

lemma propagate_conflict_cursor:
  assumes "watch_invariant s" and "conflict s = None" and "propagate s = Some (Inr (s', ok))"
    and "conflict s' = Some i" and "clauses s' i = Some c" and "\<not> garbage c"
  shows "propagated s' < length (trail s')"
proof -
  from assms(3) obtain t where t: "propagate_loop s = Some (Inr t)"
    "s' = update_stats (propagated s) t"
    by (rule propagate_Inr)
  from propagate_loop_watch_invariant [OF t(1) assms(1,2)] have "loop_invariant t" by simp
  then show ?thesis using assms(4,5,6) t(2) by (simp add: loop_invariant_def)
qed

subsection \<open>The run on the unflagged state\<close>

text \<open>
  Clearing the garbage flag of the binary clauses changes nothing in a run: a binary
  watch never reads its clause, and a long watch on a well-formed structure never names
  a clause of two literals. So every step, every scan, every round and the whole call
  commute with \<open>unflag\<close>.
\<close>

lemma unflag_clause_fields [simp]:
  "literals (unflag_clause c) = literals c" "have_pos (unflag_clause c) = have_pos c"
  "pos (unflag_clause c) = pos c"
  "garbage (unflag_clause c) = (garbage c \<and> length (literals c) \<noteq> 2)"
  by (simp_all add: unflag_clause_def)

lemma unflag_clause_live [simp]: "\<not> garbage c \<Longrightarrow> unflag_clause c = c"
  by (simp add: unflag_clause_def)

lemma unflag_fields [simp]:
  "vals (unflag s) = vals s" "trail (unflag s) = trail s"
  "propagated (unflag s) = propagated s" "conflict (unflag s) = conflict s"
  "watches (unflag s) = watches s" "level (unflag s) = level s"
  "simplifying (unflag s) = simplifying s" "unsat (unflag s) = unsat s"
  "ftab (unflag s) = ftab s" "stats (unflag s) = stats s"
  "clauses (unflag s) i = map_option unflag_clause (clauses s i)"
  "val (unflag s) = val s"
  by (simp_all add: unflag_def val_def fun_eq_iff)

lemma unflag_updates [simp]:
  "unflag (s\<lparr>conflict := x\<rparr>) = (unflag s)\<lparr>conflict := x\<rparr>"
  "unflag (s\<lparr>propagated := p\<rparr>) = (unflag s)\<lparr>propagated := p\<rparr>"
  "unflag (s\<lparr>watches := W\<rparr>) = (unflag s)\<lparr>watches := W\<rparr>"
  "unflag (s\<lparr>stats := st\<rparr>) = (unflag s)\<lparr>stats := st\<rparr>"
  by (simp_all add: unflag_def)

lemma unflag_set_clause:
  "unflag (set_clause r c s) = set_clause r (unflag_clause c) (unflag s)"
  by (auto simp: unflag_def set_clause_def fun_eq_iff)

lemma unflag_set_clause_live:
  "\<not> garbage c \<Longrightarrow> set_clause r c (unflag s) = unflag (set_clause r c s)"
  by (simp add: unflag_set_clause)

lemma unflag_watch_literal [simp]:
  "unflag (watch_literal l b c n s) = watch_literal l b c n (unflag s)"
  by (simp add: unflag_def watch_literal_def)

lemma unflag_assign:
  "inlined_assign x rsn (unflag s) = map_sum id unflag (inlined_assign x rsn s)"
  by (auto simp: inlined_assign_closed unflag_def)

lemma unflag_update_stats: "update_stats b (unflag s) = unflag (update_stats b s)"
  by (simp add: update_stats_def Let_def)

lemma unflag_long:
  assumes "\<not> garbage c1"
  shows "propagate_long lit w c1 (unflag s1)
     = map_sum id (\<lambda>(s', r, b). (unflag s', r, b)) (propagate_long lit w c1 s1)"
proof (cases "find_replacement (vals s1) (size_w w) c1")
  case (Inl e)
  then show ?thesis by (simp add: propagate_long_def Let_def)
next
  case (Inr res)
  obtain k v c2 where res: "res = (k, v, c2)" by (cases res)
  note fr = Inr [unfolded res]
  have g2: "\<not> garbage c2" using find_replacement_pos [OF fr] assms by simp
  show ?thesis
    using fr g2
    by (simp add: propagate_long_def Let_def unflag_set_clause_live unflag_assign
        split: sum.splits)
qed

lemma unflag_watch:
  assumes "\<And>c. size_w w \<noteq> 2 \<Longrightarrow> clauses s (clause_w w) = Some c \<Longrightarrow> garbage c \<Longrightarrow>
      length (literals c) \<noteq> 2"
  shows "propagate_watch lit w (unflag s)
     = map_sum id (\<lambda>(s', r, b). (unflag s', r, b)) (propagate_watch lit w s)"
proof (cases "val s (blit w) > 0 \<or> size_w w = 2")
  case True
  then show ?thesis
    by (auto simp: propagate_watch_def Let_def unflag_assign split: sum.splits)
next
  case False
  show ?thesis
  proof (cases "clauses s (clause_w w)")
    case None
    then show ?thesis using False by (simp add: propagate_watch_def Let_def)
  next
    case (Some c0)
    show ?thesis
    proof (cases "garbage c0")
      case True
      then have "garbage (unflag_clause c0)" using assms [OF _ Some] False by simp
      then show ?thesis using False Some True by (simp add: propagate_watch_def Let_def)
    next
      case ng: False
      then have ng1: "\<not> garbage (normalise lit c0)" by (simp add: normalise_def)
      have u: "set_clause (clause_w w) (normalise lit c0) (unflag s)
          = unflag (set_clause (clause_w w) (normalise lit c0) s)"
        using ng1 by (rule unflag_set_clause_live)
      show ?thesis
        using False Some ng
          unflag_long [OF ng1, of lit w "set_clause (clause_w w) (normalise lit c0) s"]
        by (simp add: propagate_watch_def Let_def u)
    qed
  qed
qed

lemma unflag_watches:
  assumes "scan_ok lit (kept @ rest) (unflag s)" and "conflict_false (unflag s)"
  shows "propagate_watches lit rest kept (unflag s)
     = map_sum id (\<lambda>(s', ws). (unflag s', ws)) (propagate_watches lit rest kept s)"
  using assms
proof (induction rest arbitrary: kept s)
  case Nil
  then show ?case by simp
next
  case (Cons w rest)
  note o = scan_okD [OF Cons.prems(1)]
  have wok: "watch_ok (clauses (unflag s)) lit w"
    using watches_wf_ok [OF o(4), of w lit] by simp
  have live: "length (literals c) \<noteq> 2"
    if "size_w w \<noteq> 2" "clauses s (clause_w w) = Some c" "garbage c" for c
    using wok that by (auto simp: watch_ok_def)
  note step = unflag_watch [of w s lit, OF live]
  show ?case
  proof (cases "propagate_watch lit w s")
    case (Inl e)
    then show ?thesis using step by simp
  next
    case (Inr res)
    obtain s1 r brk where res: "res = (s1, r, brk)" by (cases res)
    have st: "propagate_watch lit w s = Inr (s1, r, brk)" using Inr res by simp
    have st': "propagate_watch lit w (unflag s) = Inr (unflag s1, r, brk)"
      using step st by simp
    note n = scan_step_structure [OF Cons.prems(1,2) st']
    have k: "(case r of None \<Rightarrow> kept | Some w' \<Rightarrow> kept @ [w']) = kept @ kept_of r"
      by (simp add: kept_of_def split: option.splits)
    show ?thesis
    proof (cases brk)
      case True
      then show ?thesis using st st' by (simp add: Let_def)
    next
      case False
      have ok1: "scan_ok lit ((kept @ kept_of r) @ rest) (unflag s1)" using n by simp
      have cf1: "conflict_false (unflag s1)" using n by simp
      have l: "propagate_watches lit (w # rest) kept s
          = propagate_watches lit rest (kept @ kept_of r) s1"
        using st False k by (simp add: Let_def)
      have l': "propagate_watches lit (w # rest) kept (unflag s)
          = propagate_watches lit rest (kept @ kept_of r) (unflag s1)"
        using st' False k by (simp add: Let_def)
      show ?thesis unfolding l l' using ok1 cf1 by (rule Cons.IH)
    qed
  qed
qed

lemma unflag_literal:
  assumes so: "structure_ok (unflag s)" and cf: "conflict_false (unflag s)"
    and lt: "propagated s < length (trail s)"
  shows "propagate_literal (unflag s) = map_sum id unflag (propagate_literal s)"
proof -
  define lit where "lit = - (trail s ! propagated s)"
  define s1 where "s1 = s\<lparr>propagated := propagated s + 1\<rparr>"
  have a: "assignment_ok (unflag s1)"
    using so lt by (simp add: structure_ok_def assignment_ok_def s1_def)
  have f: "vals (unflag s1) lit < 0"
    using trail_literal_false [of "unflag s"] so lt
    by (simp add: structure_ok_def s1_def lit_def)
  have w: "watches_wf (clauses (unflag s1)) ((watches (unflag s1))(lit := watches s1 lit))"
    using so by (simp add: structure_ok_def s1_def unflag_def)
  have d: "db_wf (clauses (unflag s1))" using so by (simp add: structure_ok_def s1_def unflag_def)
  have sc: "scan_ok lit ([] @ watches s1 lit) (unflag s1)"
    using a f w d by (simp add: scan_ok_def)
  have cf1: "conflict_false (unflag s1)"
    using cf by (simp add: conflict_false_def s1_def unflag_def)
  note u = unflag_watches [OF sc cf1]
  have l: "propagate_literal s = (case propagate_watches lit (watches s1 lit) [] s1 of
      Inl e \<Rightarrow> Inl e | Inr (s2, ws) \<Rightarrow> Inr (s2\<lparr>watches := (watches s2)(lit := ws)\<rparr>))"
    unfolding propagate_literal_def Let_def lit_def s1_def by (simp split: sum.splits)
  have l': "propagate_literal (unflag s)
    = (case propagate_watches lit (watches s1 lit) [] (unflag s1) of
      Inl e \<Rightarrow> Inl e | Inr (s2, ws) \<Rightarrow> Inr (s2\<lparr>watches := (watches s2)(lit := ws)\<rparr>))"
    unfolding propagate_literal_def Let_def lit_def s1_def by (simp split: sum.splits)
  show ?thesis unfolding l l' u
    by (cases "propagate_watches lit (watches s1 lit) [] s1") auto
qed

lemma unflag_loop:
  assumes run: "propagate_loop s = Some (Inr t)" and so: "structure_ok (unflag s)"
    and cf: "conflict_false (unflag s)"
  shows "propagate_loop (unflag s) = Some (Inr (unflag t))"
proof -
  define I where "I = (\<lambda>x. structure_ok (unflag x) \<and> conflict_false (unflag x) \<and>
      propagate_loop (unflag x) = propagate_loop (unflag s))"
  have "I t \<and> (conflict t \<noteq> None \<or> \<not> propagated t < length (trail t))"
  proof (rule propagate_loop_invariant [OF run])
    show "I s" using so cf by (simp add: I_def)
  next
    fix x x' assume x: "I x" "conflict x = None" "propagated x < length (trail x)"
      "propagate_literal x = Inr x'"
    have sx: "structure_ok (unflag x)" "conflict_false (unflag x)"
      "propagate_loop (unflag x) = propagate_loop (unflag s)" using x(1) by (simp_all add: I_def)
    have l: "propagate_literal (unflag x) = Inr (unflag x')"
      using unflag_literal [OF sx(1,2) x(3)] x(4) by simp
    have "propagated (unflag x) < length (trail (unflag x))" using x(3) by simp
    note st = propagate_literal_structure [OF l sx(1,2) this]
    have "propagate_loop (unflag x) = propagate_loop (unflag x')"
      using x(2,3) l by (subst propagate_loop.simps) simp
    then show "I x'" using st sx(3) by (simp add: I_def)
  qed
  then have e: "propagate_loop (unflag t) = propagate_loop (unflag s)"
    and stop: "conflict t \<noteq> None \<or> \<not> propagated t < length (trail t)"
    by (simp_all add: I_def)
  have "propagate_loop (unflag t) = Some (Inr (unflag t))"
    using stop by (subst propagate_loop.simps) auto
  then show ?thesis using e by simp
qed

lemma unflag_propagate:
  assumes "propagate s = Some (Inr (s', ok))" and "structure_ok (unflag s)"
    and "conflict s = None"
  shows "propagate (unflag s) = Some (Inr (unflag s', ok))"
proof -
  from assms(1) obtain t where t: "propagate_loop s = Some (Inr t)"
    "s' = update_stats (propagated s) t" "ok = (conflict t = None)" "\<not> unsat s"
    by (rule propagate_Inr)
  have "conflict_false (unflag s)" using assms(3) by (simp add: conflict_false_def)
  from unflag_loop [OF t(1) assms(2) this] t(2,3,4) show ?thesis
    by (simp add: propagate_def Let_def unflag_update_stats)
qed

subsection \<open>The clause of a conflict is live\<close>

lemma conflict_live_update:
  assumes q: "conflict_live s" and c: "clauses s j = Some c"
    and g: "garbage c' = garbage c" "length (literals c') = length (literals c)"
    and f: "clauses s' = (clauses s)(j \<mapsto> c')" "conflict s' = conflict s"
  shows "conflict_live s'"
  unfolding conflict_live_def
proof (intro allI impI)
  fix i d assume d: "clauses s' i = Some d" "length (literals d) = 2 \<or> conflict s' = Some i"
  show "\<not> garbage d"
  proof (cases "i = j")
    case True
    then have "d = c'" using d(1) f(1) by simp
    then show ?thesis using q c d(2) g f(2) True by (auto simp: conflict_live_def)
  next
    case False
    then have "clauses s i = Some d" using d(1) f(1) by simp
    then show ?thesis using q d(2) f(2) by (auto simp: conflict_live_def)
  qed
qed

lemma conflict_live_fields:
  "clauses s' = clauses s \<Longrightarrow> conflict s' = conflict s \<Longrightarrow> conflict_live s' = conflict_live s"
  by (simp add: conflict_live_def)

lemma scan_step_live:
  assumes ok: "scan_ok lit (kept @ w # rest) s" and q: "conflict_live s"
    and step: "propagate_watch lit w s = Inr (s', r, brk)"
  shows "conflict_live s'"
proof -
  note o = scan_okD [OF ok]
  have wok: "watch_ok (clauses s) lit w" using watches_wf_ok [OF o(4), of w lit] by simp
  from step wok o(2) show ?thesis
  proof (cases rule: propagate_watch_summary)
    case (Keep c c' w')
    show ?thesis
      by (rule conflict_live_update [OF q Keep(1), of c'])
        (use Keep(2,3) in \<open>simp_all add: same_watching_def\<close>)
  next
    case (Assign c c' x)
    note i = inlined_assign_Inr [OF Assign(3)]
    show ?thesis
      by (rule conflict_live_update [OF q Assign(1), of c'])
        (use Assign(2) i(6,8) in \<open>simp_all add: same_watching_def\<close>)
  next
    case (Confl c c')
    have g: "\<not> garbage c"
    proof (cases "size_w w = 2")
      case True
      then have "length (literals c) = 2" using wok Confl(1) by (auto simp: watch_ok_def)
      then show ?thesis using q Confl(1) by (auto simp: conflict_live_def)
    next
      case False
      then show ?thesis using Confl(6) by simp
    qed
    show ?thesis unfolding conflict_live_def
    proof (intro allI impI)
      fix i d assume d: "clauses s' i = Some d" "length (literals d) = 2 \<or> conflict s' = Some i"
      show "\<not> garbage d"
      proof (cases "i = clause_w w")
        case True
        then have "d = c'" using d(1) Confl(3) by simp
        then show ?thesis using g Confl(2) by (simp add: same_watching_def)
      next
        case False
        then have "clauses s i = Some d" "length (literals d) = 2"
          using d Confl(3) by auto
        then show ?thesis using q by (auto simp: conflict_live_def)
      qed
    qed
  next
    case (Repl c c' k)
    show ?thesis
      by (rule conflict_live_update [OF q Repl(1),
            of "c'\<lparr>literals := swap 1 k (literals c')\<rparr>"])
        (use Repl(4,10) in \<open>simp_all add: same_watching_def\<close>)
  qed
qed

lemma propagate_watches_live:
  assumes "propagate_watches lit rest kept s = Inr (s', ws')" and "scan_ok lit (kept @ rest) s"
    and "conflict_false s" and "conflict_live s"
  shows "conflict_live s'"
  using assms
proof (induction rest arbitrary: kept s)
  case Nil
  then show ?case by simp
next
  case (Cons w rest)
  from Cons.prems(1) obtain s1 r brk where st: "propagate_watch lit w s = Inr (s1, r, brk)"
    by (auto split: sum.splits)
  note n = scan_step_structure [OF Cons.prems(2,3) st]
  note q = scan_step_live [OF Cons.prems(2,4) st]
  have k: "(case r of None \<Rightarrow> kept | Some w' \<Rightarrow> kept @ [w']) = kept @ kept_of r"
    by (simp add: kept_of_def split: option.splits)
  show ?case
  proof (cases brk)
    case True
    then have "s' = s1" using Cons.prems(1) st by (simp add: Let_def)
    then show ?thesis using q by simp
  next
    case False
    then have "propagate_watches lit rest (kept @ kept_of r) s1 = Inr (s', ws')"
      using Cons.prems(1) st k by (simp add: Let_def)
    then show ?thesis using Cons.IH [of "kept @ kept_of r" s1] n q by simp
  qed
qed

lemma propagate_literal_live:
  assumes "propagate_literal s = Inr s'" and "structure_ok s" and "conflict_false s"
    and "propagated s < length (trail s)" and "conflict_live s"
  shows "conflict_live s'"
proof -
  define lit where "lit = - (trail s ! propagated s)"
  define s1 where "s1 = s\<lparr>propagated := propagated s + 1\<rparr>"
  from assms(1) obtain s2 ws where
    run: "propagate_watches lit (watches s1 lit) [] s1 = Inr (s2, ws)"
    and s': "s' = s2\<lparr>watches := (watches s2)(lit := ws)\<rparr>"
    by (auto simp: propagate_literal_def Let_def lit_def s1_def split: sum.splits)
  have "assignment_ok s1" using assms(2,4) by (simp add: structure_ok_def assignment_ok_def s1_def)
  moreover have "vals s1 lit < 0"
    using trail_literal_false [OF _ assms(4)] assms(2) by (simp add: structure_ok_def lit_def s1_def)
  moreover have "(watches s1)(lit := watches s1 lit) = watches s1" by simp
  ultimately have "scan_ok lit ([] @ watches s1 lit) s1"
    using assms(2) by (simp add: scan_ok_def structure_ok_def s1_def)
  moreover have "conflict_false s1" using assms(3) by (simp add: conflict_false_def s1_def)
  moreover have "conflict_live s1" using assms(5) by (simp add: conflict_live_def s1_def)
  ultimately have "conflict_live s2"
    using propagate_watches_live [OF run] by blast
  then show ?thesis by (simp add: s' conflict_live_def)
qed

lemma propagate_loop_live:
  assumes "propagate_loop s = Some (Inr t)" and "structure_ok s" and "conflict_false s"
    and "conflict_live s"
  shows "conflict_live t"
proof -
  have "(structure_ok t \<and> conflict_false t \<and> conflict_live t)
      \<and> (conflict t \<noteq> None \<or> \<not> propagated t < length (trail t))"
  proof (rule propagate_loop_invariant [OF assms(1)])
    show "structure_ok s \<and> conflict_false s \<and> conflict_live s" using assms by simp
  next
    fix u u' assume u: "structure_ok u \<and> conflict_false u \<and> conflict_live u"
      "propagated u < length (trail u)" "propagate_literal u = Inr u'"
    then show "structure_ok u' \<and> conflict_false u' \<and> conflict_live u'"
      using propagate_literal_structure [of u u'] propagate_literal_live [of u u'] by blast
  qed
  then show ?thesis by simp
qed

lemma conflict_live_unflag: "conflict s = None \<Longrightarrow> conflict_live (unflag s)"
  by (auto simp: conflict_live_def)

text \<open>The cursor at return, with binary clauses counted as live.\<close>

lemma propagate_live_cursor:
  assumes inv: "live_invariant s" and nc: "conflict s = None"
    and run: "propagate s = Some (Inr (s', ok))"
  shows "ok \<longleftrightarrow> propagated s' = length (trail s')"
proof -
  have wi: "watch_invariant (unflag s)" using inv by (simp add: live_invariant_def)
  then have so: "structure_ok (unflag s)" by (simp add: watch_invariant_def)
  have nc': "conflict (unflag s) = None" using nc by simp
  have run': "propagate (unflag s) = Some (Inr (unflag s', ok))"
    using run so nc by (rule unflag_propagate)
  from run' obtain t where t: "propagate_loop (unflag s) = Some (Inr t)"
    "unflag s' = update_stats (propagated (unflag s)) t" "ok = (conflict t = None)"
    by (rule propagate_Inr)
  have f: "propagated s' = propagated t" "trail s' = trail t"
    using arg_cong [OF t(2), of propagated] arg_cong [OF t(2), of trail] by simp_all
  have li: "loop_invariant t"
    and stop: "conflict t \<noteq> None \<or> \<not> propagated t < length (trail t)"
    using propagate_loop_watch_invariant [OF t(1) wi nc'] by simp_all
  have le: "propagated t \<le> length (trail t)"
    using li by (simp add: loop_invariant_def structure_ok_def assignment_ok_def)
  have cf: "conflict_false (unflag s)" using nc by (simp add: conflict_false_def)
  have ql: "conflict_live t"
    using propagate_loop_live [OF t(1) so cf conflict_live_unflag [OF nc]] .
  show ?thesis
  proof
    assume ok
    then show "propagated s' = length (trail s')" using t(3) stop le f by simp
  next
    assume e: "propagated s' = length (trail s')"
    show ok
    proof (rule ccontr)
      assume "\<not> ok"
      then obtain i where i: "conflict t = Some i" using t(3) by auto
      have "conflict_false t" using li by (simp add: loop_invariant_def)
      then obtain c where c: "clauses t i = Some c" using i by (auto simp: conflict_false_def)
      have "\<not> garbage c" using ql i c by (auto simp: conflict_live_def)
      then have "propagated t < length (trail t)"
        using li i c by (simp add: loop_invariant_def)
      then show False using e f by simp
    qed
  qed
qed

subsection \<open>The invariant is kept\<close>

text \<open>
  An assignment and a successful call keep the invariant, with binary clauses counted
  as live or not. The state \<open>garbage_false\<close> shows why they must be counted as live:
  it has a flagged binary clause with both literals false and nothing left to
  propagate for one of them. It passes \<open>watch_invariant\<close>, which exempts flagged
  clauses, and a call on it fails with the cursor at the end of the trail; it is not a
  state that assignments and calls of \<open>propagate\<close> lead to, and \<open>live_invariant\<close>
  excludes it.
\<close>

lemma two_binaries_invariant: "watch_invariant two_binaries"
proof (rule watch_invariantI)
  show "val_symmetric (vals two_binaries)" by (simp add: two_binaries_def val_symmetric_def)
  show "\<forall>l\<in>set (trail two_binaries). 0 < vals two_binaries l"
    by (simp add: two_binaries_def)
  show "propagated two_binaries \<le> length (trail two_binaries)"
    by (simp add: two_binaries_def example_defs)
  show "db_wf (clauses two_binaries)"
    by (auto simp: db_wf_def two_binaries_def example_defs split: if_splits)
  show "distinct (map clause_w (watches two_binaries l))" for l
    by (simp add: two_binaries_def example_defs)
  show "watch_ok (clauses two_binaries) l w" if "w \<in> set (watches two_binaries l)" for l w
    using that
    by (auto simp: two_binaries_def example_defs watch_ok_def watching_def split: if_splits)
  show "watched (clauses two_binaries) (watches two_binaries)"
    by (auto simp: watched_def two_binaries_def example_defs split: if_splits)
  show "pending_ok (vals two_binaries)
      (set (drop (propagated two_binaries) (trail two_binaries))) (clauses two_binaries) 0 {}"
    by (auto simp: pending_ok_def two_binaries_def example_defs less_Suc_eq numeral_2_eq_2
        split: if_splits)
qed

lemma garbage_false_invariant: "watch_invariant garbage_false"
proof (rule watch_invariantI)
  show "val_symmetric (vals garbage_false)" by (simp add: garbage_false_def val_symmetric_def)
  show "\<forall>l\<in>set (trail garbage_false). 0 < vals garbage_false l"
    by (simp add: garbage_false_def)
  show "propagated garbage_false \<le> length (trail garbage_false)"
    by (simp add: garbage_false_def example_defs)
  show "db_wf (clauses garbage_false)"
    by (auto simp: db_wf_def garbage_false_def example_defs split: if_splits)
  show "distinct (map clause_w (watches garbage_false l))" for l
    by (simp add: garbage_false_def example_defs)
  show "watch_ok (clauses garbage_false) l w" if "w \<in> set (watches garbage_false l)" for l w
    using that
    by (auto simp: garbage_false_def example_defs watch_ok_def watching_def split: if_splits)
  show "watched (clauses garbage_false) (watches garbage_false)"
    by (auto simp: watched_def garbage_false_def example_defs split: if_splits)
  show "pending_ok (vals garbage_false)
      (set (drop (propagated garbage_false) (trail garbage_false))) (clauses garbage_false) 0 {}"
    by (auto simp: pending_ok_def garbage_false_def example_defs split: if_splits)
qed

lemma garbage_false_run:
  "case propagate garbage_false of
     Some (Inr (s', ok)) \<Rightarrow> \<not> ok \<and> trail s' = [- 2, - 1] \<and> propagated s' = 2
       \<and> conflict s' = Some 0
   | _ \<Rightarrow> False"
  by (simp add: garbage_false_def example_defs eval_defs)

lemma unflag_id:
  assumes "\<And>i c. clauses s i = Some c \<Longrightarrow> length (literals c) = 2 \<Longrightarrow> \<not> garbage c"
  shows "unflag s = s"
proof -
  have "map_option unflag_clause (clauses s i) = clauses s i" for i
  proof (cases "clauses s i")
    case (Some c)
    then show ?thesis using assms [OF Some] by (auto simp: unflag_clause_def)
  qed simp
  then have "(\<lambda>i. map_option unflag_clause (clauses s i)) = clauses s" by (simp add: fun_eq_iff)
  then show ?thesis by (simp add: unflag_def)
qed

lemma inlined_assign_watch_invariant:
  assumes wi: "watch_invariant s" and a: "inlined_assign x rsn s = Inr s'"
  shows "watch_invariant s'"
proof -
  note i = inlined_assign_Inr [OF a]
  have so: "structure_ok s" and wd: "watched (clauses s) (watches s)"
    and po: "pending_ok (vals s) (set (drop (propagated s) (trail s))) (clauses s) 0 {}"
    using wi by (simp_all add: watch_invariant_def)
  have ao: "assignment_ok s" using so by (simp add: structure_ok_def)
  then have sym: "val_symmetric (vals s)" and le: "propagated s \<le> length (trail s)"
    by (simp_all add: assignment_ok_def)
  note z = assigned_zero [OF sym i(2)]
  have so': "structure_ok s'"
    using so assignment_ok_assign [OF ao a] i(7,8) by (simp add: structure_ok_def)
  have P: "set (drop (propagated s') (trail s')) = insert x (set (drop (propagated s) (trail s)))"
    using i(4,5) le by simp
  have po': "pending_ok (vals s') (set (drop (propagated s') (trail s'))) (clauses s') 0 {}"
  proof (rule pending_okI)
    fix j c q assume c: "clauses s' j = Some c" "\<not> garbage c" "q < 2"
      "vals s' (literals c ! q) < 0"
    have cj: "clauses s j = Some c" using c(1) i(8) by simp
    show "sat (vals s') c \<or> - (literals c ! q) \<in> set (drop (propagated s') (trail s'))
        \<or> (literals c ! q = 0 \<and> j \<in> {})"
    proof (cases "literals c ! q = - x")
      case True
      then show ?thesis using P by simp
    next
      case False
      then have "vals s (literals c ! q) < 0" using c(4) i(3) by (auto split: if_splits)
      from pending_okD [OF po cj c(2,3) this]
      have "sat (vals s) c \<or> - (literals c ! q) \<in> set (drop (propagated s) (trail s))"
        by simp
      then show ?thesis using sat_assign [OF _ z, of c] i(3) P by auto
    qed
  qed
  show ?thesis using so' wd po' i(7,8) by (simp add: watch_invariant_def)
qed

lemma inlined_assign_live_invariant:
  assumes "live_invariant s" and "inlined_assign x rsn s = Inr s'"
  shows "live_invariant s'"
proof -
  have "inlined_assign x rsn (unflag s) = Inr (unflag s')"
    using assms(2) by (simp add: unflag_assign)
  then show ?thesis
    using assms(1) inlined_assign_watch_invariant unfolding live_invariant_def by blast
qed

lemma propagate_live_invariant:
  assumes inv: "live_invariant s" and nc: "conflict s = None"
    and run: "propagate s = Some (Inr (s', True))"
  shows "live_invariant s'"
proof -
  have wi: "watch_invariant (unflag s)" using inv by (simp add: live_invariant_def)
  then have so: "structure_ok (unflag s)" by (simp add: watch_invariant_def)
  have nc': "conflict (unflag s) = None" using nc by simp
  have run': "propagate (unflag s) = Some (Inr (unflag s', True))"
    using run so nc by (rule unflag_propagate)
  from run' obtain t where t: "propagate_loop (unflag s) = Some (Inr t)"
    "unflag s' = update_stats (propagated (unflag s)) t" "True = (conflict t = None)"
    by (rule propagate_Inr)
  have li: "loop_invariant t" using propagate_loop_watch_invariant [OF t(1) wi nc'] by simp
  have "watch_invariant t" using li t(3) by (simp add: loop_invariant_def watch_invariant_def)
  then have "watch_invariant (update_stats (propagated (unflag s)) t)"
    by (simp add: watch_invariant_def structure_ok_def assignment_ok_def)
  then show ?thesis using t(2) by (simp add: live_invariant_def)
qed

lemma two_binaries_live: "live_invariant two_binaries"
proof -
  have "unflag two_binaries = two_binaries"
    by (rule unflag_id) (auto simp: two_binaries_def example_defs split: if_splits)
  then show ?thesis using two_binaries_invariant by (simp add: live_invariant_def)
qed

lemma garbage_open_live: "live_invariant garbage_open"
  unfolding live_invariant_def
proof (rule watch_invariantI)
  show "val_symmetric (vals (unflag garbage_open))"
    by (simp add: garbage_open_def val_symmetric_def)
  show "\<forall>l\<in>set (trail (unflag garbage_open)). 0 < vals (unflag garbage_open) l"
    by (simp add: garbage_open_def)
  show "propagated (unflag garbage_open) \<le> length (trail (unflag garbage_open))"
    by (simp add: garbage_open_def example_defs)
  show "db_wf (clauses (unflag garbage_open))"
    by (auto simp: db_wf_def garbage_open_def example_defs split: if_splits)
  show "distinct (map clause_w (watches (unflag garbage_open) l))" for l
    by (simp add: garbage_open_def example_defs)
  show "watch_ok (clauses (unflag garbage_open)) l w"
    if "w \<in> set (watches (unflag garbage_open) l)" for l w
    using that
    by (auto simp: garbage_open_def example_defs watch_ok_def watching_def unflag_clause_def
        split: if_splits)
  show "watched (clauses (unflag garbage_open)) (watches (unflag garbage_open))"
    by (auto simp: watched_def garbage_open_def example_defs split: if_splits)
  show "pending_ok (vals (unflag garbage_open))
      (set (drop (propagated (unflag garbage_open)) (trail (unflag garbage_open))))
      (clauses (unflag garbage_open)) 0 {}"
    by (auto simp: pending_ok_def garbage_open_def example_defs less_Suc_eq numeral_2_eq_2
        split: if_splits)
qed

lemma garbage_false_not_live: "\<not> live_invariant garbage_false"
proof
  assume "live_invariant garbage_false"
  then have po: "pending_ok (vals (unflag garbage_false))
      (set (drop (propagated (unflag garbage_false)) (trail (unflag garbage_false))))
      (clauses (unflag garbage_false)) 0 {}"
    by (simp add: live_invariant_def watch_invariant_def)
  have c: "clauses (unflag garbage_false) 0 = Some (short_clause [1, 2])"
    by (simp add: garbage_false_def example_defs unflag_clause_def)
  have "\<not> garbage (short_clause [1, 2])" "(1 :: nat) < 2"
    "vals (unflag garbage_false) (literals (short_clause [1, 2]) ! 1) < 0"
    by (simp_all add: garbage_false_def example_defs)
  from pending_okD [OF po c this] show False
    by (simp add: garbage_false_def example_defs sat_def)
qed

lemma garbage_open_run:
  "case propagate garbage_open of
     Some (Inr (s', ok)) \<Rightarrow> ok \<and> trail s' = [- 1, 2] \<and> propagated s' = 2
       \<and> reason (vtab s' 2) = Some 0
   | _ \<Rightarrow> False"
  by (simp add: garbage_open_def example_defs eval_defs)

subsection \<open>Cursor and result\<close>

lemma scenario_a_run:
  "case propagate scenario_a of
     Some (Inr (s', ok)) \<Rightarrow> ok \<and> trail s' = [- 2, 1, 3] \<and> propagated s' = 3
   | _ \<Rightarrow> False"
  by (simp add: scenario_a_def example_defs eval_defs)

lemma scenario_a_round:
  "case propagate_literal scenario_a of
     Inr u' \<Rightarrow> trail u' = [- 2, 1] \<and> propagated u' = 1 | _ \<Rightarrow> False"
  by (simp add: scenario_a_def example_defs eval_defs)

lemma two_binaries_watch:
  "case propagate_watch 1 (watch_of 3 2 1) (two_binaries\<lparr>propagated := 1\<rparr>) of
     Inr (t', r, brk) \<Rightarrow> trail t' = [- 1, - 2, 3] \<and> propagated t' = 1 | _ \<Rightarrow> False"
  by (simp add: two_binaries_def example_defs eval_defs)

text \<open>
  C4. One watch never shortens or changes the trail and leaves the cursor alone; one
  round of the outer loop advances the cursor by one and leaves it within the trail; so
  over a call entered with the cursor within the trail, the old trail is a prefix of
  the new one and the cursor has not decreased and is within the trail. A call that
  succeeds returns with the cursor at the end of the trail. Entered with no conflict
  set on a state that satisfies the watch invariant, binary clauses counted as live,
  the call succeeds if and only if it returns with the cursor at the end of the trail.
\<close>

theorem trail_grows_cursor_bounded:
  "(propagate_watch lit w t = Inr (t', r, brk) \<longrightarrow>
      prefix (trail t) (trail t') \<and> propagated t' = propagated t)
   \<and> (propagated u < length (trail u) \<and> propagate_literal u = Inr u' \<longrightarrow>
        prefix (trail u) (trail u') \<and> propagated u' = propagated u + 1
        \<and> propagated u' \<le> length (trail u'))
   \<and> (propagated s \<le> length (trail s) \<and> propagate s = Some (Inr (s', ok)) \<longrightarrow>
        prefix (trail s) (trail s') \<and> propagated s \<le> propagated s'
        \<and> propagated s' \<le> length (trail s')
        \<and> (ok \<longrightarrow> propagated s' = length (trail s')))
   \<and> (live_invariant s \<and> conflict s = None \<and> propagate s = Some (Inr (s', ok)) \<longrightarrow>
        (ok \<longleftrightarrow> propagated s' = length (trail s')))"
proof (intro conjI impI)
  assume "propagate_watch lit w t = Inr (t', r, brk)"
  from propagate_watch_frame [OF this]
  show "prefix (trail t) (trail t')" "propagated t' = propagated t"
    by (simp_all add: frame_def)
next
  assume "propagated u < length (trail u) \<and> propagate_literal u = Inr u'"
  then have "prefix (trail u) (trail u') \<and> propagated u' = propagated u + 1 \<and>
     propagated u' \<le> length (trail u')"
    using propagate_literal_frame [of u u'] by simp
  then show "prefix (trail u) (trail u')" "propagated u' = propagated u + 1"
    "propagated u' \<le> length (trail u')" by simp_all
next
  assume "propagated s \<le> length (trail s) \<and> propagate s = Some (Inr (s', ok))"
  then have h: "call_frame s s'" "ok \<longrightarrow> propagated s' = length (trail s')"
    using propagate_call_frame [of s s' ok] by simp_all
  show "prefix (trail s) (trail s')" "propagated s \<le> propagated s'"
    "propagated s' \<le> length (trail s')"
    using h(1) by (simp_all add: call_frame_def)
  show "propagated s' = length (trail s')" if ok using h(2) that by simp
next
  assume "live_invariant s \<and> conflict s = None \<and> propagate s = Some (Inr (s', ok))"
  then show "ok \<longleftrightarrow> propagated s' = length (trail s')"
    using propagate_live_cursor [of s s' ok] by simp
qed

theorem trail_grows_cursor_bounded_witness:
  "(\<exists>t' r brk. propagate_watch 1 (watch_of 3 2 1) (two_binaries\<lparr>propagated := 1\<rparr>)
        = Inr (t', r, brk)
      \<and> prefix (trail (two_binaries\<lparr>propagated := 1\<rparr>)) (trail t') \<and> propagated t' = 1)
   \<and> propagated scenario_a < length (trail scenario_a)
   \<and> (\<exists>u'. propagate_literal scenario_a = Inr u' \<and> prefix (trail scenario_a) (trail u')
        \<and> propagated u' = 1 \<and> propagated u' \<le> length (trail u'))
   \<and> (\<exists>s'. propagate scenario_a = Some (Inr (s', True))
        \<and> prefix (trail scenario_a) (trail s') \<and> propagated s' = length (trail s'))
   \<and> live_invariant two_binaries \<and> conflict two_binaries = None
   \<and> (\<exists>s'. propagate two_binaries = Some (Inr (s', False))
        \<and> propagated s' \<noteq> length (trail s'))
   \<and> live_invariant garbage_open \<and> conflict garbage_open = None
   \<and> (\<exists>s'. propagate garbage_open = Some (Inr (s', True))
        \<and> propagated s' = length (trail s'))"
proof -
  obtain t' r brk where w:
    "propagate_watch 1 (watch_of 3 2 1) (two_binaries\<lparr>propagated := 1\<rparr>) = Inr (t', r, brk)"
    using two_binaries_watch by (auto split: sum.splits)
  have p: "propagated scenario_a < length (trail scenario_a)"
    "propagated scenario_a \<le> length (trail scenario_a)"
    "propagated scenario_a = 0"
    by (simp_all add: scenario_a_def example_defs)
  obtain u' where u: "propagate_literal scenario_a = Inr u'"
    using scenario_a_round by (auto split: sum.splits)
  obtain sa where sa: "propagate scenario_a = Some (Inr (sa, True))"
    using scenario_a_run by (auto split: option.splits sum.splits)
  have c: "conflict two_binaries = None" "conflict garbage_open = None"
    by (simp_all add: two_binaries_def garbage_open_def example_defs)
  obtain sb where sb: "propagate two_binaries = Some (Inr (sb, False))"
    using two_binaries_run by (auto split: option.splits sum.splits)
  obtain sg where sg: "propagate garbage_open = Some (Inr (sg, True))"
    using garbage_open_run by (auto split: option.splits sum.splits)
  note th = trail_grows_cursor_bounded
  have 1: "prefix (trail (two_binaries\<lparr>propagated := 1\<rparr>)) (trail t') \<and> propagated t' = 1"
    using th [THEN conjunct1, rule_format, OF w] by simp
  have 2: "prefix (trail scenario_a) (trail u') \<and> propagated u' = 1
      \<and> propagated u' \<le> length (trail u')"
    using th [THEN conjunct2, THEN conjunct1, rule_format, OF conjI [OF p(1) u]] p(3) by simp
  have 3: "prefix (trail scenario_a) (trail sa) \<and> propagated sa = length (trail sa)"
    using th [THEN conjunct2, THEN conjunct2, THEN conjunct1, rule_format, OF conjI [OF p(2) sa]]
    by simp
  have "live_invariant two_binaries \<and> conflict two_binaries = None
      \<and> propagate two_binaries = Some (Inr (sb, False))"
    using two_binaries_live c(1) sb by simp
  from th [THEN conjunct2, THEN conjunct2, THEN conjunct2, rule_format, OF this]
  have 4: "propagated sb \<noteq> length (trail sb)" by simp
  have "live_invariant garbage_open \<and> conflict garbage_open = None
      \<and> propagate garbage_open = Some (Inr (sg, True))"
    using garbage_open_live c(2) sg by simp
  from th [THEN conjunct2, THEN conjunct2, THEN conjunct2, rule_format, OF this]
  have 5: "propagated sg = length (trail sg)" by simp
  have e1: "\<exists>t' r brk. propagate_watch 1 (watch_of 3 2 1) (two_binaries\<lparr>propagated := 1\<rparr>)
        = Inr (t', r, brk)
      \<and> prefix (trail (two_binaries\<lparr>propagated := 1\<rparr>)) (trail t') \<and> propagated t' = 1"
    using w 1 by blast
  have e2: "\<exists>u'. propagate_literal scenario_a = Inr u' \<and> prefix (trail scenario_a) (trail u')
        \<and> propagated u' = 1 \<and> propagated u' \<le> length (trail u')"
    using u 2 by blast
  have e3: "\<exists>s'. propagate scenario_a = Some (Inr (s', True))
        \<and> prefix (trail scenario_a) (trail s') \<and> propagated s' = length (trail s')"
    using sa 3 by blast
  have e4: "\<exists>s'. propagate two_binaries = Some (Inr (s', False))
        \<and> propagated s' \<noteq> length (trail s')"
    using sb 4 by blast
  have e5: "\<exists>s'. propagate garbage_open = Some (Inr (s', True))
        \<and> propagated s' = length (trail s')"
    using sg 5 by blast
  from e1 p(1) e2 e3 two_binaries_live c(1) e4 garbage_open_live c(2) e5 show ?thesis
    by (intro conjI) assumption+
qed

section \<open>Value symmetry\<close>

text \<open>
  C7. The value store before any assignment is symmetric, \<open>vs (- l) = - vs l\<close>, and
  every assignment and every call of \<open>propagate\<close> that starts from a symmetric store
  ends in one. In a symmetric store an unassigned literal has an unassigned negation,
  and exactly one of an assigned literal and its negation is true.
\<close>

theorem values_symmetric:
  "val_symmetric initial_vals \<and> polarity_consistent initial_vals
   \<and> (val_symmetric (vals s) \<and> inlined_assign lit rsn s = Inr s' \<longrightarrow>
        val_symmetric (vals s') \<and> polarity_consistent (vals s'))
   \<and> (val_symmetric (vals s) \<and> propagate s = Some (Inr (t, ok)) \<longrightarrow>
        val_symmetric (vals t) \<and> polarity_consistent (vals t))"
proof (intro conjI impI)
  show i: "val_symmetric initial_vals" by (simp add: initial_vals_def val_symmetric_def)
  show "polarity_consistent initial_vals" using val_symmetric_polarity [OF i] .
next
  assume h: "val_symmetric (vals s) \<and> inlined_assign lit rsn s = Inr s'"
  then have "frame s s'" using frame_assign [of lit rsn s s'] by simp
  then show a: "val_symmetric (vals s')" using h by (simp add: frame_def)
  show "polarity_consistent (vals s')" using val_symmetric_polarity [OF a] .
next
  assume h: "val_symmetric (vals s) \<and> propagate s = Some (Inr (t, ok))"
  then obtain u where u: "propagate_loop s = Some (Inr u)" "t = update_stats (propagated s) u"
    by (auto elim: propagate_Inr)
  show a: "val_symmetric (vals t)" using propagate_loop_symmetric [OF u(1)] h u(2) by simp
  show "polarity_consistent (vals t)" using val_symmetric_polarity [OF a] .
qed

theorem values_symmetric_witness:
  "val_symmetric (vals long_unit)
   \<and> (\<exists>s'. inlined_assign 1 (Some 0) long_unit = Inr s' \<and> val_symmetric (vals s')
         \<and> vals s' 1 = 1 \<and> vals s' (- 1) = - 1)
   \<and> (\<exists>t. propagate long_unit = Some (Inr (t, True)) \<and> val_symmetric (vals t)
         \<and> polarity_consistent (vals t) \<and> vals t 1 = 1)"
proof -
  have v: "val_symmetric (vals long_unit)" by (simp add: long_unit_def val_symmetric_def)
  have "case inlined_assign 1 (Some 0) long_unit of
      Inr s' \<Rightarrow> vals s' 1 = 1 \<and> vals s' (- 1) = - 1 | _ \<Rightarrow> False"
    by (simp add: long_unit_def example_defs inlined_assign_closed vidx_def)
  then obtain s' where a: "inlined_assign 1 (Some 0) long_unit = Inr s'"
    "vals s' 1 = 1" "vals s' (- 1) = - 1"
    by (auto split: sum.splits)
  obtain t where r: "propagate long_unit = Some (Inr (t, True))" "vals t 1 = 1"
    using long_unit_run by (auto split: option.splits sum.splits)
  note th = values_symmetric
  have 1: "val_symmetric (vals s')"
    using th [THEN conjunct2, THEN conjunct2, THEN conjunct1, rule_format, OF conjI [OF v a(1)]]
    by simp
  have 2: "val_symmetric (vals t) \<and> polarity_consistent (vals t)"
    using th [THEN conjunct2, THEN conjunct2, THEN conjunct2, rule_format, OF conjI [OF v r(1)]]
    by simp
  have e1: "\<exists>s'. inlined_assign 1 (Some 0) long_unit = Inr s' \<and> val_symmetric (vals s')
         \<and> vals s' 1 = 1 \<and> vals s' (- 1) = - 1"
    using a 1 by blast
  have e2: "\<exists>t. propagate long_unit = Some (Inr (t, True)) \<and> val_symmetric (vals t)
         \<and> polarity_consistent (vals t) \<and> vals t 1 = 1"
    using r 2 by blast
  from v e1 e2 show ?thesis by (intro conjI) assumption+
qed

section \<open>The saved position\<close>

text \<open>
  C10. A search for a replacement that passes its assertions returns a position between
  2 and the size of the clause, and that is the position it saves on a clause that
  carries one. On a clause whose saved position is in that range (and whose watch has
  the size of the clause) the search fails no assertion. Hence a call of
  \<open>propagate\<close> entered with every saved position in range returns with every saved
  position in range.
\<close>

theorem saved_position_in_range:
  "(find_replacement vs n c = Inr (k, v, c') \<longrightarrow>
      2 \<le> k \<and> k \<le> length (literals c') \<and> length (literals c') = length (literals c)
      \<and> (have_pos c' \<longrightarrow> pos c' = k \<and> 2 \<le> pos c' \<and> pos c' \<le> length (literals c')))
   \<and> (n = length (literals c) \<and> 2 \<le> n \<and> (have_pos c \<longrightarrow> 2 \<le> pos c \<and> pos c \<le> n) \<longrightarrow>
        (\<exists>k v c'. find_replacement vs n c = Inr (k, v, c')))
   \<and> (pos_in_range (clauses s) \<and> propagate s = Some (Inr (s', ok)) \<longrightarrow>
        pos_in_range (clauses s'))"
proof (intro conjI impI)
  assume "find_replacement vs n c = Inr (k, v, c')"
  note p = find_replacement_Inr [OF this]
  have l: "literals c' = literals c" "have_pos c' = have_pos c" using p(4) by auto
  show "2 \<le> k" by (rule p(1))
  show "k \<le> length (literals c')" using p(2) l by simp
  show "length (literals c') = length (literals c)" using l by simp
  show k: "pos c' = k" if "have_pos c'" using p(4) that l by auto
  show "2 \<le> pos c'" if "have_pos c'" using k [OF that] p(1) by simp
  show "pos c' \<le> length (literals c')" if "have_pos c'" using k [OF that] p(2) l by simp
next
  assume "n = length (literals c) \<and> 2 \<le> n \<and> (have_pos c \<longrightarrow> 2 \<le> pos c \<and> pos c \<le> n)"
  then have "n = length (literals c)" "2 \<le> n" "have_pos c \<longrightarrow> 2 \<le> pos c \<and> pos c \<le> n"
    by blast+
  then show "\<exists>k v c'. find_replacement vs n c = Inr (k, v, c')"
    by (rule find_replacement_total)
next
  assume h: "pos_in_range (clauses s) \<and> propagate s = Some (Inr (s', ok))"
  then obtain u where u: "propagate_loop s = Some (Inr u)" "s' = update_stats (propagated s) u"
    by (auto elim: propagate_Inr)
  show "pos_in_range (clauses s')" using propagate_loop_pos [OF u(1)] h u(2) by simp
qed

lemma cached_search_run:
  "case propagate cached_search of
     Some (Inr (s', ok)) \<Rightarrow> ok \<and> clauses s' 0 = Some (long_clause [2, 4, 3, 1, 5] 3)
       \<and> watches s' 1 = [] \<and> watches s' 4 = [watch_of 1 5 0] \<and> trail s' = [- 3, - 1]
   | _ \<Rightarrow> False"
  by (simp add: cached_search_def example_defs eval_defs)

theorem saved_position_in_range_witness:
  "find_replacement gap_vals 5 gap_clause = Inr (3, 0, gap_clause\<lparr>pos := 3\<rparr>)
   \<and> have_pos (gap_clause\<lparr>pos := 3\<rparr>) \<and> 2 \<le> pos (gap_clause\<lparr>pos := 3\<rparr>)
   \<and> pos (gap_clause\<lparr>pos := 3\<rparr>) \<le> length (literals (gap_clause\<lparr>pos := 3\<rparr>))
   \<and> 5 = length (literals gap_clause) \<and> have_pos gap_clause \<and> 2 \<le> pos gap_clause
   \<and> pos gap_clause \<le> 5
   \<and> (\<exists>k v c'. find_replacement initial_vals 5 gap_clause = Inr (k, v, c'))
   \<and> pos_in_range (clauses cached_search)
   \<and> (\<exists>s'. propagate cached_search = Some (Inr (s', True))
         \<and> clauses s' 0 = Some (long_clause [2, 4, 3, 1, 5] 3) \<and> pos_in_range (clauses s'))"
proof -
  note th = saved_position_in_range
  have f: "find_replacement gap_vals 5 gap_clause = Inr (3, 0, gap_clause\<lparr>pos := 3\<rparr>)"
    by (simp add: gap_clause_def gap_vals_def long_clause_def find_replacement_def scan.simps)
  have hp: "have_pos (gap_clause\<lparr>pos := 3\<rparr>)" by (simp add: gap_clause_def long_clause_def)
  have 1: "2 \<le> pos (gap_clause\<lparr>pos := 3\<rparr>)
      \<and> pos (gap_clause\<lparr>pos := 3\<rparr>) \<le> length (literals (gap_clause\<lparr>pos := 3\<rparr>))"
    using th [THEN conjunct1, rule_format, OF f] hp by blast
  have g: "5 = length (literals gap_clause)" "have_pos gap_clause" "2 \<le> pos gap_clause"
    "pos gap_clause \<le> 5"
    by (simp_all add: gap_clause_def long_clause_def)
  have "5 = length (literals gap_clause) \<and> (2::nat) \<le> 5
      \<and> (have_pos gap_clause \<longrightarrow> 2 \<le> pos gap_clause \<and> pos gap_clause \<le> 5)"
    using g by simp
  from th [THEN conjunct2, THEN conjunct1, rule_format, OF this]
  have 2: "\<exists>k v c'. find_replacement initial_vals 5 gap_clause = Inr (k, v, c')" .
  have pr: "pos_in_range (clauses cached_search)"
    by (auto simp: pos_in_range_def cached_search_def example_defs split: if_splits)
  obtain s' where r: "propagate cached_search = Some (Inr (s', True))"
    "clauses s' 0 = Some (long_clause [2, 4, 3, 1, 5] 3)"
    using cached_search_run by (auto split: option.splits sum.splits)
  have 3: "pos_in_range (clauses s')"
    using th [THEN conjunct2, THEN conjunct2, rule_format, OF conjI [OF pr r(1)]] .
  have e: "\<exists>s'. propagate cached_search = Some (Inr (s', True))
         \<and> clauses s' 0 = Some (long_clause [2, 4, 3, 1, 5] 3) \<and> pos_in_range (clauses s')"
    using r 3 by blast
  from f hp 1 g 2 pr e show ?thesis by (intro conjI) (assumption | simp)+
qed

section \<open>Supplementary results\<close>

subsection \<open>The specification's wording of I3 gives the watch invariant\<close>

lemma spec_I3_pending_ok:
  assumes "structure_ok s" and "watched (clauses s) (watches s)" and "spec_I3 s"
  shows "pending_ok (vals s) P (clauses s) 0 {}"
proof (rule pending_okI)
  fix i c q assume c: "clauses s i = Some c" "\<not> garbage c" "q < 2"
    "vals s (literals c ! q) < 0"
  have "i \<in> clause_w ` set (watches s (literals c ! q))"
    using watchedD [OF assms(2) c(1,2) watchingI [OF c(3)]] .
  then obtain w where w: "w \<in> set (watches s (literals c ! q))" "clause_w w = i" by auto
  have "watches_wf (clauses s) (watches s)" using assms(1) by (simp add: structure_ok_def)
  then have "watch_ok (clauses s) (literals c ! q) w" using w(1) by (rule watches_wf_ok)
  then have b: "blit w \<in> set (literals c)" using w(2) c(1,2) by (auto simp: watch_ok_def)
  have "(vals s (literals c ! 0) = 0 \<and> vals s (literals c ! 1) = 0) \<or> vals s (blit w) > 0"
    using assms(3) w c(1,2) unfolding spec_I3_def by blast
  moreover have "q = 0 \<or> q = 1" using c(3) by auto
  ultimately have "vals s (blit w) > 0" using c(4) by auto
  then have "sat (vals s) c" using b by (auto simp: sat_def)
  then show "sat (vals s) c \<or> - (literals c ! q) \<in> P \<or> (literals c ! q = 0 \<and> i \<in> {})"
    by simp
qed

lemma spec_I3_watch_invariant:
  "structure_ok s \<Longrightarrow> watched (clauses s) (watches s) \<Longrightarrow> spec_I3 s \<Longrightarrow> watch_invariant s"
  using spec_I3_pending_ok by (simp add: watch_invariant_def)

text \<open>The same with binary clauses counted as live.\<close>

lemma spec_I3_live_invariant:
  assumes "structure_ok (unflag s)" and "watched (clauses (unflag s)) (watches s)"
    and "spec_I3 (unflag s)"
  shows "live_invariant s"
  unfolding live_invariant_def using assms by (intro spec_I3_watch_invariant) simp_all

subsection \<open>A call of propagate on a well-formed state returns\<close>

text \<open>
  On a state with a well-formed watch structure, saved positions in range and finitely
  many clauses over non-eliminated variables, no assertion of the source fails and the
  outer loop ends: \<open>propagate\<close> returns a state and a status.
\<close>

lemma clause_litsI: "cs i = Some c \<Longrightarrow> x \<in> set (literals c) \<Longrightarrow> x \<in> clause_lits cs"
  by (auto simp: clause_lits_def ran_def)

lemma inlined_assign_total:
  assumes "val_symmetric (vals s)" and "vals s x = 0" and "x \<noteq> 0"
    and "\<not> eliminated (ftab s (vidx x))"
  shows "\<exists>s'. inlined_assign x rsn s = Inr s'"
proof -
  have "vals s (- x) = 0" using assms(1,2) by (simp add: val_symmetric_def)
  moreover have "vidx x = x \<or> vidx x = - x" by (auto simp: vidx_def)
  ultimately have "vals s (vidx x) = 0" using assms(2) by auto
  then show ?thesis using assms(3,4) by (simp add: inlined_assign_closed)
qed

lemma propagate_long_total:
  assumes sym: "val_symmetric (vals s1)" and lf: "vals s1 lit < 0"
    and n: "size_w w = length (literals c1)" "2 \<le> length (literals c1)"
    and ps: "have_pos c1 \<longrightarrow> 2 \<le> pos c1 \<and> pos c1 \<le> length (literals c1)"
    and ok0: "literals c1 ! 0 \<noteq> 0" "\<not> eliminated (ftab s1 (vidx (literals c1 ! 0)))"
  shows "\<exists>res. propagate_long lit w c1 s1 = Inr res"
proof (cases "val s1 (literals c1 ! 0) > 0")
  case True
  then show ?thesis by (auto simp: propagate_long_def Let_def)
next
  case u: False
  have "2 \<le> size_w w" "have_pos c1 \<longrightarrow> 2 \<le> pos c1 \<and> pos c1 \<le> size_w w"
    using n ps by simp_all
  from find_replacement_total [OF n(1) this, of "vals s1"]
  obtain k v c2 where fr: "find_replacement (vals s1) (size_w w) c1 = Inr (k, v, c2)"
    by blast
  consider "v > 0" | "v = 0" | "v < 0" "val s1 (literals c1 ! 0) = 0"
    | "v < 0" "val s1 (literals c1 ! 0) < 0"
    using u by linarith
  then show ?thesis
  proof cases
    case 1
    then show ?thesis using u fr by (auto simp: propagate_long_def Let_def)
  next
    case 2
    have f: "k < length (literals c1) \<and> v = vals s1 (literals c1 ! k)"
      using find_replacement_found [OF fr] 2 by simp
    have p: "2 \<le> k" using find_replacement_Inr [OF fr] by simp
    have kl: "k < length (literals c1)" using f by simp
    have "swap 1 k (literals c1) ! 1 = literals c1 ! k" by (rule swap_1_k(2) [OF p kl])
    then have "swap 1 k (literals c1) ! 1 \<noteq> lit" using f 2 lf by auto
    then show ?thesis using u fr 2 by (auto simp: propagate_long_def Let_def)
  next
    case 3
    have "vals (set_clause (clause_w w) c2 s1) (literals c1 ! 0) = 0" using 3 by (simp add: val_def)
    from inlined_assign_total [OF _ this ok0(1)] obtain s' where
      "inlined_assign (literals c1 ! 0) (Some (clause_w w)) (set_clause (clause_w w) c2 s1) = Inr s'"
      using sym ok0(2) by auto
    then show ?thesis using u fr 3 by (auto simp: propagate_long_def Let_def)
  next
    case 4
    then show ?thesis using u fr by (auto simp: propagate_long_def Let_def)
  qed
qed

lemma propagate_watch_total:
  assumes ok: "scan_ok lit (kept @ w # rest) s" and pr: "pos_in_range (clauses s)"
    and lo: "lits_ok s"
  shows "\<exists>res. propagate_watch lit w s = Inr res"
proof -
  note o = scan_okD [OF ok]
  have wok: "watch_ok (clauses s) lit w" using watches_wf_ok [OF o(4), of w lit] by simp
  then obtain c where c: "clauses s (clause_w w) = Some c"
    and cw: "size_w w = 2 \<or> \<not> garbage c \<Longrightarrow>
         size_w w = length (literals c) \<and> watching c lit \<and>
         blit w \<in> set (literals c) \<and> (size_w w = 2 \<longrightarrow> blit w \<noteq> lit)"
    by (auto simp: watch_ok_def)
  have good: "x \<noteq> 0 \<and> \<not> eliminated (ftab s (vidx x))" if "x \<in> set (literals c)" for x
    using lo clause_litsI [of "clauses s" "clause_w w" c x, OF c that] by (simp add: lits_ok_def)
  consider "val s (blit w) > 0" | "val s (blit w) < 0" "size_w w = 2"
    | "val s (blit w) = 0" "size_w w = 2" | "val s (blit w) \<le> 0" "size_w w \<noteq> 2" "garbage c"
    | "val s (blit w) \<le> 0" "size_w w \<noteq> 2" "\<not> garbage c"
    by linarith
  then show ?thesis
  proof cases
    case 1
    then show ?thesis by (auto simp: propagate_watch_def)
  next
    case 2
    then show ?thesis by (auto simp: propagate_watch_def)
  next
    case 3
    have "blit w \<in> set (literals c)" using cw 3 by simp
    from inlined_assign_total [OF o(5) _ _ _, of "blit w" "Some (clause_w w)"] good [OF this]
    obtain s' where "inlined_assign (blit w) (Some (clause_w w)) s = Inr s'"
      using 3(1) by (auto simp: val_def)
    then show ?thesis using 3 by (auto simp: propagate_watch_def)
  next
    case 4
    then show ?thesis using c by (auto simp: propagate_watch_def)
  next
    case 5
    define c1 where "c1 = normalise lit c"
    define s1 where "s1 = set_clause (clause_w w) c1 s"
    have len: "2 \<le> length (literals c)" "distinct (literals c)"
      using o(3) c 5(3) by (auto simp: db_wf_def)
    have l1: "literals c1 ! 1 = lit" unfolding c1_def
      using normalise_watched cw 5(3) len(1) by simp
    have sw: "same_watching c c1" unfolding c1_def by (rule same_watching_normalise [OF len(1)])
    have "0 < length (literals c1)" using len(1) by (auto simp: c1_def)
    then have "literals c1 ! 0 \<in> set (literals c1)" by (rule nth_mem)
    then have in0: "literals c1 ! 0 \<in> set (literals c)" using sw by (simp add: same_watching_def)
    have ps: "have_pos c1 \<longrightarrow> 2 \<le> pos c1 \<and> pos c1 \<le> length (literals c1)"
      using pr c by (auto simp: pos_in_range_def c1_def)
    have "\<exists>res. propagate_long lit w c1 s1 = Inr res"
    proof (rule propagate_long_total)
      show "val_symmetric (vals s1)" using o(5) by (simp add: s1_def)
      show "vals s1 lit < 0" using o(2) by (simp add: s1_def)
      show "size_w w = length (literals c1)" using cw 5(3) by (simp add: c1_def)
      show "2 \<le> length (literals c1)" using len(1) by (simp add: c1_def)
      show "have_pos c1 \<longrightarrow> 2 \<le> pos c1 \<and> pos c1 \<le> length (literals c1)" by (rule ps)
      show "literals c1 ! 0 \<noteq> 0" using good [OF in0] by simp
      show "\<not> eliminated (ftab s1 (vidx (literals c1 ! 0)))" using good [OF in0] by (simp add: s1_def)
    qed
    then show ?thesis
      using 5 c len(1) l1 by (auto simp: propagate_watch_def Let_def c1_def s1_def)
  qed
qed

lemma clause_lits_iff: "x \<in> clause_lits cs \<longleftrightarrow> (\<exists>i c. cs i = Some c \<and> x \<in> set (literals c))"
  by (auto simp: clause_lits_def ran_def)

lemma clause_lits_update:
  assumes "cs i = Some c" and "set (literals c') = set (literals c)"
  shows "clause_lits (cs(i \<mapsto> c')) = clause_lits cs"
proof (rule set_eqI)
  fix x
  show "x \<in> clause_lits (cs(i \<mapsto> c')) \<longleftrightarrow> x \<in> clause_lits cs"
    unfolding clause_lits_iff
  proof
    assume "\<exists>j d. (cs(i \<mapsto> c')) j = Some d \<and> x \<in> set (literals d)"
    then obtain j d where d: "(cs(i \<mapsto> c')) j = Some d" "x \<in> set (literals d)" by blast
    show "\<exists>j d. cs j = Some d \<and> x \<in> set (literals d)"
    proof (cases "j = i")
      case True
      then show ?thesis using d assms by auto
    next
      case False
      then show ?thesis using d by auto
    qed
  next
    assume "\<exists>j d. cs j = Some d \<and> x \<in> set (literals d)"
    then obtain j d where d: "cs j = Some d" "x \<in> set (literals d)" by blast
    show "\<exists>j d. (cs(i \<mapsto> c')) j = Some d \<and> x \<in> set (literals d)"
    proof (cases "j = i")
      case True
      then have "(cs(i \<mapsto> c')) i = Some c'" "x \<in> set (literals c')" using d assms by auto
      then show ?thesis by blast
    next
      case False
      then have "(cs(i \<mapsto> c')) j = Some d" using d by simp
      then show ?thesis using d(2) by blast
    qed
  qed
qed

lemma finite_clause_lits: "finite (dom cs) \<Longrightarrow> finite (clause_lits cs)"
  unfolding clause_lits_def by (simp add: finite_ran)

lemma watch_literal_ftab [simp]: "ftab (watch_literal l b c n s) = ftab s"
  by (simp add: watch_literal_def)

text \<open>A state that differs by the order of literals in one clause only.\<close>

lemma potential_same:
  assumes "vals s' = vals s" and "trail s' = trail s" and "ftab s' = ftab s"
    and "clauses s' = (clauses s)(i \<mapsto> c')" and "clauses s i = Some c"
    and "set (literals c') = set (literals c)" and "lits_ok s"
  shows "lits_ok s' \<and> potential s' \<le> potential s"
proof -
  have "clause_lits ((clauses s)(i \<mapsto> c')) = clause_lits (clauses s)"
    using assms(5,6) by (rule clause_lits_update)
  then have cl: "clause_lits (clauses s') = clause_lits (clauses s)"
    using assms(4) by simp
  have "dom (clauses s') = dom (clauses s)" using assms(4,5) by auto
  then show ?thesis using assms(1,2,3,7) cl by (simp add: lits_ok_def potential_def unassigned_def)
qed

lemma potential_set_clause:
  assumes "clauses s i = Some c" and "same_watching c c'" and "lits_ok s"
  shows "lits_ok (set_clause i c' s) \<and> potential (set_clause i c' s) \<le> potential s"
proof (rule potential_same [where i = i and c' = c' and c = c])
  show "set (literals c') = set (literals c)" using assms(2) by (simp add: same_watching_def)
qed (use assms in simp_all)

lemma potential_assign:
  assumes a: "inlined_assign x rsn s = Inr s'" and sym: "val_symmetric (vals s)"
    and x: "x \<in> clause_lits (clauses s)" and lo: "lits_ok s"
  shows "lits_ok s' \<and> potential s' \<le> potential s"
proof -
  note i = inlined_assign_Inr [OF a]
  note z = assigned_zero [OF sym i(2)]
  have fin: "finite (unassigned s)"
    using finite_clause_lits lo by (simp add: unassigned_def lits_ok_def)
  have sub: "unassigned s' \<subseteq> unassigned s - {x}"
    using i(3,8) z by (auto simp: unassigned_def)
  have xin: "x \<in> unassigned s" using x z by (simp add: unassigned_def)
  have "card (unassigned s') \<le> card (unassigned s - {x})"
    using card_mono [OF _ sub] fin by simp
  also have "\<dots> = card (unassigned s) - 1" using xin fin by simp
  finally have 1: "card (unassigned s') \<le> card (unassigned s) - 1" .
  have "0 < card (unassigned s)" using xin fin by (auto simp: card_gt_0_iff)
  with 1 have "card (unassigned s') + 1 \<le> card (unassigned s)" by linarith
  then have "potential s' \<le> potential s" using i(4) by (simp add: potential_def)
  moreover have "lits_ok s'" using lo i(8,12) by (simp add: lits_ok_def)
  ultimately show ?thesis by simp
qed

lemma scan_step_potential:
  assumes ok: "scan_ok lit (kept @ w # rest) s" and lo: "lits_ok s"
    and step: "propagate_watch lit w s = Inr (s', r, brk)"
  shows "lits_ok s' \<and> potential s' \<le> potential s"
proof -
  note o = scan_okD [OF ok]
  have wok: "watch_ok (clauses s) lit w" using watches_wf_ok [OF o(4), of w lit] by simp
  from step wok o(2) show ?thesis
  proof (cases rule: propagate_watch_summary)
    case (Keep c c' w')
    show ?thesis unfolding Keep(3) using Keep(1,2) lo by (rule potential_set_clause)
  next
    case (Assign c c' x)
    define s1 where "s1 = set_clause (clause_w w) c' s"
    have 1: "lits_ok s1 \<and> potential s1 \<le> potential s"
      unfolding s1_def using Assign(1,2) lo by (rule potential_set_clause)
    have "x \<in> clause_lits (clauses s)"
      using clause_litsI [of "clauses s" "clause_w w" c x] Assign(1,4) by simp
    moreover have "clause_lits ((clauses s)(clause_w w \<mapsto> c')) = clause_lits (clauses s)"
      using Assign(1) by (rule clause_lits_update) (use Assign(2) in \<open>simp add: same_watching_def\<close>)
    ultimately have x: "x \<in> clause_lits (clauses s1)" by (simp add: s1_def)
    have sym: "val_symmetric (vals s1)" using o(5) by (simp add: s1_def)
    have a: "inlined_assign x (Some (clause_w w)) s1 = Inr s'" using Assign(3) by (simp add: s1_def)
    from potential_assign [OF a sym x] 1 show ?thesis by simp
  next
    case (Confl c c')
    have "lits_ok (set_clause (clause_w w) c' s)
        \<and> potential (set_clause (clause_w w) c' s) \<le> potential s"
      using Confl(1,2) lo by (rule potential_set_clause)
    then show ?thesis
      using Confl(3) by (simp add: lits_ok_def potential_def unassigned_def)
  next
    case (Repl c c' k)
    have s: "set (swap 1 k (literals c')) = set (literals c)"
      using swap_1_k(4) [OF Repl(6,7)] Repl(4) by (simp add: same_watching_def)
    show ?thesis
    proof (rule potential_same [where i = "clause_w w" and c = c
          and c' = "c'\<lparr>literals := swap 1 k (literals c')\<rparr>"])
      show "set (literals (c'\<lparr>literals := swap 1 k (literals c')\<rparr>)) = set (literals c)"
        using s by simp
    qed (use Repl(1,10) lo in simp_all)
  qed
qed

lemma potential_trail: "length (trail s) \<le> potential s"
  by (simp add: potential_def)

lemma propagate_watches_total:
  assumes "scan_ok lit (kept @ rest) s" and "conflict_false s"
    and "pos_in_range (clauses s)" and "lits_ok s"
  shows "\<exists>s' ws'. propagate_watches lit rest kept s = Inr (s', ws') \<and>
     lits_ok s' \<and> potential s' \<le> potential s"
  using assms
proof (induction rest arbitrary: kept s)
  case Nil
  then show ?case by simp
next
  case (Cons w rest)
  from propagate_watch_total [OF Cons.prems(1,3,4)]
  obtain s1 r brk where st: "propagate_watch lit w s = Inr (s1, r, brk)"
    by (metis prod_cases3)
  note n = scan_step_structure [OF Cons.prems(1,2) st]
  note p = scan_step_potential [OF Cons.prems(1,4) st]
  have pr: "pos_in_range (clauses s1)"
    using propagate_watch_frame [OF st] Cons.prems(3) by (simp add: frame_def)
  have k: "(case r of None \<Rightarrow> kept | Some w' \<Rightarrow> kept @ [w']) = kept @ kept_of r"
    by (simp add: kept_of_def split: option.splits)
  show ?case
  proof (cases brk)
    case True
    then show ?thesis using st p by (simp add: Let_def)
  next
    case False
    have ok1: "scan_ok lit ((kept @ kept_of r) @ rest) s1" using n by simp
    from Cons.IH [OF ok1 _ pr] n p
    obtain s' ws' where r: "propagate_watches lit rest (kept @ kept_of r) s1 = Inr (s', ws')"
      "lits_ok s'" "potential s' \<le> potential s1" by blast
    have "propagate_watches lit (w # rest) kept s = Inr (s', ws')"
      using st False r(1) k by (simp add: Let_def)
    then show ?thesis using r(2,3) p by auto
  qed
qed

text \<open>One round: no assertion fails, and the measure of the outer loop decreases.\<close>

lemma propagate_literal_total:
  assumes ok: "run_ok s" and cf: "conflict_false s" and lt: "propagated s < length (trail s)"
  shows "\<exists>s'. propagate_literal s = Inr s' \<and> run_ok s' \<and> conflict_false s' \<and>
     potential s' - propagated s' < potential s - propagated s"
proof -
  define lit where "lit = - (trail s ! propagated s)"
  define s1 where "s1 = s\<lparr>propagated := propagated s + 1\<rparr>"
  have so: "structure_ok s" and pr: "pos_in_range (clauses s)" and lo: "lits_ok s"
    using ok by (simp_all add: run_ok_def)
  have a: "assignment_ok s1" using so lt by (simp add: structure_ok_def assignment_ok_def s1_def)
  have f: "vals s1 lit < 0"
    using trail_literal_false [of s] so lt
    by (simp add: structure_ok_def s1_def lit_def)
  have w: "watches_wf (clauses s1) ((watches s1)(lit := watches s1 lit))"
    using so by (simp add: structure_ok_def s1_def)
  have d: "db_wf (clauses s1)" using so by (simp add: structure_ok_def s1_def)
  have sc: "scan_ok lit ([] @ watches s1 lit) s1"
    using a f w d by (simp add: scan_ok_def)
  have cf1: "conflict_false s1" using cf by (simp add: conflict_false_def s1_def)
  have pr1: "pos_in_range (clauses s1)" using pr by (simp add: s1_def)
  have lo1: "lits_ok s1" using lo by (simp add: lits_ok_def s1_def)
  have p1: "potential s1 = potential s" by (simp add: potential_def unassigned_def s1_def)
  from propagate_watches_total [OF sc cf1 pr1 lo1]
  obtain s2 ws where run: "propagate_watches lit (watches s1 lit) [] s1 = Inr (s2, ws)"
    and lo2: "lits_ok s2" and p2: "potential s2 \<le> potential s1" by blast
  define s' where "s' = s2\<lparr>watches := (watches s2)(lit := ws)\<rparr>"
  have res: "propagate_literal s = Inr s'"
    using run unfolding propagate_literal_def Let_def s'_def
    by (simp add: lit_def s1_def)
  note st = propagate_literal_structure [OF res so cf lt]
  note fr = propagate_literal_frame [OF res lt]
  have lo': "lits_ok s'" using lo2 by (simp add: lits_ok_def s'_def)
  have p': "potential s' \<le> potential s"
    using p2 p1 by (simp add: potential_def unassigned_def s'_def)
  have "propagated s' \<le> potential s'" using fr potential_trail [of s'] by linarith
  then have "potential s' - propagated s' < potential s - propagated s"
    using fr p' by linarith
  then show ?thesis using res st fr pr lo' by (auto simp: run_ok_def)
qed

text \<open>The outer loop terminates without a failed assertion.\<close>

lemma propagate_loop_total:
  assumes "run_ok s" and "conflict_false s"
  shows "\<exists>t. propagate_loop s = Some (Inr t)"
  using assms
proof (induction "potential s - propagated s" arbitrary: s rule: less_induct)
  case less
  show ?case
  proof (cases "conflict s = None \<and> propagated s < length (trail s)")
    case True
    from propagate_literal_total [OF less.prems] True
    obtain s' where s': "propagate_literal s = Inr s'" "run_ok s'" "conflict_false s'"
      "potential s' - propagated s' < potential s - propagated s" by blast
    from less.hyps [OF s'(4,2,3)] obtain t where "propagate_loop s' = Some (Inr t)" by blast
    then have "propagate_loop s = Some (Inr t)"
      using True s'(1) by (subst propagate_loop.simps) simp
    then show ?thesis by blast
  next
    case False
    then have "propagate_loop s = Some (Inr s)" by (subst propagate_loop.simps) auto
    then show ?thesis by blast
  qed
qed

lemma propagate_total:
  assumes "run_ok s" and "conflict s = None" and "\<not> unsat s"
  shows "\<exists>s' ok. propagate s = Some (Inr (s', ok))"
proof -
  have "conflict_false s" using assms(2) by (simp add: conflict_false_def)
  from propagate_loop_total [OF assms(1) this] obtain t where "propagate_loop s = Some (Inr t)"
    by blast
  then show ?thesis using assms(3) by (simp add: propagate_def Let_def)
qed

lemma two_binaries_run_ok: "run_ok two_binaries"
  unfolding run_ok_def lits_ok_def pos_in_range_def
proof (intro conjI)
  show "structure_ok two_binaries" by (rule two_binaries_structure_ok)
  show "\<forall>i c. clauses two_binaries i = Some c \<longrightarrow> have_pos c \<longrightarrow>
      2 \<le> pos c \<and> pos c \<le> length (literals c)"
    by (auto simp: two_binaries_def example_defs split: if_splits)
  show "finite (dom (clauses two_binaries))" by (simp add: two_binaries_def)
  show "\<forall>x\<in>clause_lits (clauses two_binaries).
      x \<noteq> 0 \<and> \<not> eliminated (ftab two_binaries (vidx x))"
    by (auto simp: clause_lits_iff two_binaries_def example_defs split: if_splits)
qed

lemma two_binaries_returns: "\<exists>s' ok. propagate two_binaries = Some (Inr (s', ok))"
  by (rule propagate_total [OF two_binaries_run_ok]) (simp_all add: two_binaries_def example_defs)

end
